theory Spec2Isabelle
  imports Complex_Main "HOL-Library.Word" "HOL-Library.Signed_Division"
begin

unbundle bit_operations_syntax

section \<open>Go errors\<close>

text \<open>
  Go errors are values of an open interface.  The embedding has a constructor for each
  dynamic type that \<open>formatError\<close> and \<open>logStats\<close> tell apart, and for the common
  types of packages \<open>errors\<close>, \<open>fmt\<close>, \<open>context\<close>, \<open>syscall\<close>, \<open>os\<close>,
  \<open>net\<close> and \<open>net/url\<close>:
  \<^item> \<open>ErrorString\<close> is \<open>*errors.errorString\<close> (\<open>errors.New\<close>, and \<open>fmt.Errorf\<close>
    without \<open>%w\<close>), \<open>WrapError\<close> is \<open>*fmt.wrapError\<close> (\<open>fmt.Errorf\<close> with one
    \<open>%w\<close>);
  \<^item> \<open>Canceled\<close> and \<open>DeadlineExceeded\<close> are the two sentinels of package
    \<open>context\<close>;
  \<^item> \<open>Errno\<close>, \<open>SyscallError\<close>, \<open>OpError\<close> and \<open>URLError\<close> are
    \<open>syscall.Errno\<close>, \<open>*os.SyscallError\<close>, \<open>*net.OpError\<close> and \<open>*url.Error\<close>;
    their \<open>Err\<close> fields are never nil, as the standard library builds them.
  \<^item> \<open>Custom text timeout temporary accepts wrapped\<close> is a value of any other type,
    given by what its methods answer: \<open>Error()\<close> returns \<open>text\<close>; \<open>timeout\<close> is the
    answer of \<open>Timeout()\<close>, \<open>None\<close> for a type without that method; \<open>temporary\<close>
    tells whether the type has a method \<open>Temporary() bool\<close>; \<open>accepts\<close> lists the
    targets for which its method \<open>Is(error) bool\<close> answers true, and is empty for a type
    without that method; \<open>wrapped\<close> lists what \<open>Unwrap\<close> returns: nothing for a type
    without the method (or when it returns nil), one error for \<open>Unwrap() error\<close>, any
    number for \<open>Unwrap() []error\<close>.

  The text of a \<open>syscall.Errno\<close> comes from the platform's table, the text of a
  \<open>*url.Error\<close> quotes the URL with \<open>%q\<close>, and the text of a wrapping error of
  \<open>fmt.Errorf\<close> is its formatted message; these texts are carried as a field.
\<close>

datatype error =
    ErrorString string
  | WrapError string error
  | Canceled
  | DeadlineExceeded
  | Errno nat string
  | SyscallError string error
  | OpError string string "string option" "string option" error
  | URLError string error
  | Custom string "bool option" bool "error list" "error list"

text \<open>
  Two errors of package \<open>net\<close>.  \<open>*net.timeoutError\<close> (the variable \<open>errTimeout\<close>)
  has the methods \<open>Error\<close>, \<open>Timeout\<close>, \<open>Temporary\<close> and
  \<open>Is\<close>, which answers \<open>err == context.DeadlineExceeded\<close>.  \<open>net.canceledError\<close>
  (the variable \<open>errCanceled\<close>) has the methods \<open>Error\<close> and \<open>Is\<close>, which
  answers \<open>err == context.Canceled\<close>.  A dial that runs into the deadline or the
  cancellation of its context returns them inside a \<open>*net.OpError\<close>.
\<close>

definition timeoutError :: error where
  "timeoutError = Custom ''i/o timeout'' (Some True) True [DeadlineExceeded] []"

definition canceledError :: error where
  "canceledError = Custom ''operation was canceled'' None False [Canceled] []"

section \<open>Protocol identifiers (ping.go, \<open>Protocol\<close>, \<open>NewProtocol\<close>)\<close>

text \<open>\<open>Protocol\<close> is an \<open>int\<close> with three named constants (\<open>iota\<close>).\<close>

type_synonym Protocol = int

definition TCP :: Protocol where "TCP = 0"
definition HTTP :: Protocol where "HTTP = 1"
definition HTTPS :: Protocol where "HTTPS = 2"

definition String :: "Protocol \<Rightarrow> string" where
  "String protocol =
     (if protocol = TCP then ''tcp''
      else if protocol = HTTP then ''http''
      else if protocol = HTTPS then ''https''
      else ''unknown'')"

text \<open>
  \<open>strings.ToLower\<close> on the bytes of a string.  On a string of ASCII bytes Go maps
  \<open>'A'..'Z'\<close> to \<open>'a'..'z'\<close> and keeps every other byte, which is what this
  function does.  A string with a byte from \<open>0x80\<close> on goes through the Unicode tables
  in Go; this function keeps such bytes.  The two agree on whether the result is one of
  \<open>tcp\<close>, \<open>http\<close>, \<open>https\<close>: the only runes outside ASCII whose lower case is
  an ASCII letter are U+0130 (to \<open>i\<close>) and U+212A (to \<open>k\<close>), and neither letter
  occurs in the three names.
\<close>

definition toLowerByte :: "char \<Rightarrow> char" where
  "toLowerByte c =
     (if of_char (CHR ''A'') \<le> (of_char c :: nat) \<and> (of_char c :: nat) \<le> of_char (CHR ''Z'')
      then char_of ((of_char c :: nat) + (of_char (CHR ''a'') - of_char (CHR ''A'')))
      else c)"

definition ToLower :: "string \<Rightarrow> string" where
  "ToLower s = map toLowerByte s"

text \<open>
  \<open>NewProtocol\<close> returns \<open>(Protocol, error)\<close>; the error branch is \<open>Inl\<close>.
  \<open>fmt.Errorf\<close> without \<open>%w\<close> builds a plain error string.
\<close>

definition NewProtocol :: "string \<Rightarrow> error + Protocol" where
  "NewProtocol protocol =
     (let l = ToLower protocol in
      if l = String TCP then Inr TCP
      else if l = String HTTP then Inr HTTP
      else if l = String HTTPS then Inr HTTPS
      else Inl (ErrorString (''protocol '' @ protocol @ '' not support'')))"

section \<open>Errors of the standard library, as \<open>formatError\<close> and \<open>logStats\<close> see them\<close>

text \<open>
  \<open>err.Error()\<close>.  \<open>*os.SyscallError\<close> and \<open>*net.OpError\<close> build their text from
  their fields; \<open>Source\<close> and \<open>Addr\<close> of an \<open>OpError\<close> are the texts of the two
  addresses, \<open>None\<close> for nil.
\<close>

fun error_Error :: "error \<Rightarrow> string" where
  "error_Error (ErrorString s) = s"
| "error_Error (WrapError msg err) = msg"
| "error_Error Canceled = ''context canceled''"
| "error_Error DeadlineExceeded = ''context deadline exceeded''"
| "error_Error (Errno n s) = s"
| "error_Error (SyscallError syscall err) = syscall @ '': '' @ error_Error err"
| "error_Error (OpError op net source addr err) =
     op
     @ (if net \<noteq> [] then '' '' @ net else [])
     @ (case source of None \<Rightarrow> [] | Some a \<Rightarrow> '' '' @ a)
     @ (case addr of None \<Rightarrow> []
        | Some a \<Rightarrow> (if source \<noteq> None then ''->'' else '' '') @ a)
     @ '': '' @ error_Error err"
| "error_Error (URLError msg err) = msg"
| "error_Error (Custom text timeout temporary accepts wrapped) = text"

text \<open>The three error numbers \<open>syscall.Errno.Timeout\<close> tests (values of linux).\<close>

definition EAGAIN :: nat where "EAGAIN = 11"
definition EWOULDBLOCK :: nat where "EWOULDBLOCK = 11"
definition ETIMEDOUT :: nat where "ETIMEDOUT = 110"

text \<open>
  \<open>err.Timeout()\<close>, for the types that have the method; \<open>None\<close> when the dynamic
  type has no \<open>Timeout\<close> method, so that the assertion
  \<open>err.(interface{ Timeout() bool })\<close> fails.
\<close>

fun error_Timeout :: "error \<Rightarrow> bool option" where
  "error_Timeout (ErrorString s) = None"
| "error_Timeout (WrapError msg err) = None"
| "error_Timeout Canceled = None"
| "error_Timeout DeadlineExceeded = Some True"
| "error_Timeout (Errno n s) = Some (n = EAGAIN \<or> n = EWOULDBLOCK \<or> n = ETIMEDOUT)"
| "error_Timeout (SyscallError syscall err) = Some (error_Timeout err = Some True)"
| "error_Timeout (OpError op net source addr err) =
     (case err of
        SyscallError syscall ne \<Rightarrow> Some (error_Timeout ne = Some True)
      | _ \<Rightarrow> Some (error_Timeout err = Some True))"
| "error_Timeout (URLError msg err) = Some (error_Timeout err = Some True)"
| "error_Timeout (Custom text timeout temporary accepts wrapped) = timeout"

text \<open>
  The dynamic types that satisfy \<open>net.Error\<close> (methods \<open>Error\<close>, \<open>Timeout\<close> and
  \<open>Temporary\<close>).  \<open>*os.SyscallError\<close> has no \<open>Temporary\<close> method.
  \<open>*url.Error\<close> satisfies the interface too, and the type switch of
  \<open>formatError\<close> tests for it first.
\<close>

fun is_net_Error :: "error \<Rightarrow> bool" where
  "is_net_Error DeadlineExceeded = True"
| "is_net_Error (Errno n s) = True"
| "is_net_Error (OpError op net source addr err) = True"
| "is_net_Error (URLError msg err) = True"
| "is_net_Error (Custom text timeout temporary accepts wrapped) = (timeout \<noteq> None \<and> temporary)"
| "is_net_Error _ = False"

text \<open>
  \<open>errors.Is\<close> (Go 1.21) walks down from the error: at each error it answers true when
  the error equals the target, or when the error has a method \<open>Is\<close> that accepts the
  target; otherwise it goes on with what \<open>Unwrap\<close> returns, and answers false at an error
  that wraps nothing.  The program calls it with the two sentinels of package
  \<open>context\<close> only: they are comparable, and equality of the interface values is
  equality of the constructors.  Of the types with a constructor of their own,
  \<open>syscall.Errno\<close> alone has a method \<open>Is\<close>; it accepts four sentinels of packages
  \<open>os\<close> and \<open>errors\<close> (\<open>ErrPermission\<close>, \<open>ErrExist\<close>, \<open>ErrNotExist\<close>,
  \<open>ErrUnsupported\<close>), which are no values of the embedding, and nothing else.
\<close>

fun errors_Is :: "error \<Rightarrow> error \<Rightarrow> bool" where
  "errors_Is (WrapError msg err) target =
     (WrapError msg err = target \<or> errors_Is err target)"
| "errors_Is (SyscallError syscall err) target =
     (SyscallError syscall err = target \<or> errors_Is err target)"
| "errors_Is (OpError op net source addr err) target =
     (OpError op net source addr err = target \<or> errors_Is err target)"
| "errors_Is (URLError msg err) target =
     (URLError msg err = target \<or> errors_Is err target)"
| "errors_Is (Custom text timeout temporary accepts wrapped) target =
     (Custom text timeout temporary accepts wrapped = target
      \<or> target \<in> set accepts
      \<or> (\<exists>err \<in> set wrapped. errors_Is err target))"
| "errors_Is err target = (err = target)"

text \<open>\<open>Pinger.formatError\<close>, the type switch in the order of the source.\<close>

fun formatError :: "error \<Rightarrow> string" where
  "formatError (URLError msg err) =
     (if error_Timeout (URLError msg err) = Some True then ''timeout''
      else formatError err)"
| "formatError err =
     (if is_net_Error err then
        (if error_Timeout err = Some True then ''timeout''
         else (case err of
                 OpError op net source addr (SyscallError syscall e) \<Rightarrow> error_Error e
               | _ \<Rightarrow> error_Error err))
      else
        (if errors_Is err DeadlineExceeded then ''timeout''
         else error_Error err))"

section \<open>Numbers of the program\<close>

text \<open>
  \<open>time.Duration\<close> is an \<open>int64\<close> of nanoseconds: a 64-bit word read as a signed
  number.  The \<open>int\<close> fields of the \<open>Pinger\<close> (\<open>counter\<close>, \<open>failedTotal\<close>) and
  the length of a slice are integers: \<open>failedTotal\<close> never exceeds the length of
  \<open>durations\<close>, and \<open>p.counter-1\<close> is evaluated only where \<open>p.counter > 0\<close>, so
  none of them can wrap.
\<close>

type_synonym Duration = "64 word"

text \<open>
  A finite \<open>float64\<close> is the rational number it denotes.  \<open>round64\<close> rounds a
  rational to the nearest number with a significand of 53 bits, ties to even (the
  rounding of IEEE 754 binary64; the exponent is not bounded here, and the numbers of
  this program stay far inside the range of the normal numbers).  Every operation on
  \<open>float64\<close> is the exact operation followed by \<open>round64\<close>, one rounding for each
  operation, as in the code for amd64, which has no fused multiply-add.
\<close>

type_synonym float64 = rat

function bitlen :: "int \<Rightarrow> int" where
  "bitlen k = (if k \<le> 0 then 0 else 1 + bitlen (k div 2))"
  by pat_completeness auto
termination
  by (relation "measure nat") auto

definition pow2 :: "int \<Rightarrow> rat" where
  "pow2 k = (if 0 \<le> k then 2 ^ nat k else 1 / 2 ^ nat (- k))"

definition ilog2 :: "rat \<Rightarrow> int" where
  "ilog2 x =
     (let k = bitlen (fst (quotient_of x)) - bitlen (snd (quotient_of x))
      in if pow2 k \<le> x then k else k - 1)"

definition roundEven :: "rat \<Rightarrow> int" where
  "roundEven m =
     (let f = \<lfloor>m\<rfloor>; d = m - of_int f
      in if d < 1 / 2 then f
         else if 1 / 2 < d then f + 1
         else if even f then f else f + 1)"

definition round64 :: "rat \<Rightarrow> float64" where
  "round64 x =
     (if x = 0 then 0
      else (let e = ilog2 \<bar>x\<bar> - 52 in of_int (roundEven (x / pow2 e)) * pow2 e))"

definition fadd :: "float64 \<Rightarrow> float64 \<Rightarrow> float64" where
  "fadd a b = round64 (a + b)"

definition fsub :: "float64 \<Rightarrow> float64 \<Rightarrow> float64" where
  "fsub a b = round64 (a - b)"

definition fmul :: "float64 \<Rightarrow> float64 \<Rightarrow> float64" where
  "fmul a b = round64 (a * b)"

definition fdiv :: "float64 \<Rightarrow> float64 \<Rightarrow> float64" where
  "fdiv a b = round64 (a / b)"

text \<open>The conversion \<open>float64(n)\<close> of an integer.\<close>

definition float64_of_int :: "int \<Rightarrow> float64" where
  "float64_of_int n = round64 (of_int n)"

text \<open>
  The conversion \<open>time.Duration(f)\<close> of a \<open>float64\<close>: the fraction is dropped
  (rounding to zero).  For a value outside \<open>int64\<close> the language leaves the result to
  the implementation; amd64 yields \<open>0x8000000000000000\<close>.
\<close>

definition toward_zero :: "rat \<Rightarrow> int" where
  "toward_zero f = (if 0 \<le> f then \<lfloor>f\<rfloor> else \<lceil>f\<rceil>)"

definition Duration_of_float64 :: "float64 \<Rightarrow> Duration" where
  "Duration_of_float64 f =
     (if - (2 ^ 63) \<le> toward_zero f \<and> toward_zero f < 2 ^ 63 then word_of_int (toward_zero f)
      else 0x8000000000000000)"

text \<open>\<open>Duration.Nanoseconds\<close>: the \<open>int64\<close> itself.\<close>

definition Nanoseconds :: "Duration \<Rightarrow> int" where
  "Nanoseconds d = sint d"

section \<open>Package \<open>gonum.org/v1/gonum/stat\<close> (v0.15.0, as \<open>go.mod\<close> requires)\<close>

text \<open>
  \<open>stat.Quantile\<close> and \<open>stat.Mean\<close> are functions of the library the program calls,
  always with \<open>weights = nil\<close>.  \<open>Quantile\<close> panics on a probability outside
  \<open>[0, 1]\<close>, on an empty slice and on a slice that is not sorted; it then walks the
  slice, counting the samples in \<open>cumsum\<close>, until \<open>cumsum >= p * len(x)\<close>.
  A \<open>float64\<close> of this embedding is never NaN.
\<close>

datatype panic = Panic string

datatype CumulantKind = Empirical | LinInterp

function empiricalQuantile_loop ::
  "float64 list \<Rightarrow> float64 \<Rightarrow> float64 \<Rightarrow> nat \<Rightarrow> panic + float64" where
  "empiricalQuantile_loop x fidx cumsum i =
     (if i < length x then
        (if fidx \<le> fadd cumsum 1 then Inr (x ! i)
         else empiricalQuantile_loop x fidx (fadd cumsum 1) (Suc i))
      else Inl (Panic ''impossible''))"
  by pat_completeness auto
termination
  by (relation "measure (\<lambda>(x, fidx, cumsum, i). length x - i)") auto

definition empiricalQuantile :: "float64 \<Rightarrow> float64 list \<Rightarrow> float64 \<Rightarrow> panic + float64" where
  "empiricalQuantile p x sumWeights = empiricalQuantile_loop x (fmul p sumWeights) 0 0"

function linInterpQuantile_loop ::
  "float64 list \<Rightarrow> float64 \<Rightarrow> float64 \<Rightarrow> nat \<Rightarrow> panic + float64" where
  "linInterpQuantile_loop x fidx cumsum i =
     (if i < length x then
        (if fidx \<le> fadd cumsum 1 then
           (if i = 0 then Inr (x ! 0)
            else (let t = fsub (fadd cumsum 1) fidx
                  in Inr (fadd (fmul t (x ! (i - 1))) (fmul (fsub 1 t) (x ! i)))))
         else linInterpQuantile_loop x fidx (fadd cumsum 1) (Suc i))
      else Inl (Panic ''impossible''))"
  by pat_completeness auto
termination
  by (relation "measure (\<lambda>(x, fidx, cumsum, i). length x - i)") auto

definition linInterpQuantile :: "float64 \<Rightarrow> float64 list \<Rightarrow> float64 \<Rightarrow> panic + float64" where
  "linInterpQuantile p x sumWeights = linInterpQuantile_loop x (fmul p sumWeights) 0 0"

definition Quantile :: "float64 \<Rightarrow> CumulantKind \<Rightarrow> float64 list \<Rightarrow> panic + float64" where
  "Quantile p c x =
     (if \<not> (0 \<le> p \<and> p \<le> 1) then Inl (Panic ''stat: percentile out of bounds'')
      else if length x = 0 then Inl (Panic ''stat: zero length slice'')
      else if \<not> sorted x then Inl (Panic ''x data are not sorted'')
      else (let sumWeights = float64_of_int (int (length x))
            in case c of
                 Empirical \<Rightarrow> empiricalQuantile p x sumWeights
               | LinInterp \<Rightarrow> linInterpQuantile p x sumWeights))"

text \<open>
  \<open>stat.Mean(x, nil)\<close> is \<open>floats.Sum(x) / float64(len(x))\<close>.  The sum is taken
  here with one accumulator from left to right, as the library's portable code does; its
  assembly for amd64 adds in several lanes, which can change the last bit of the sum.  On
  the empty slice the quotient is NaN in Go, a value this embedding does not have;
  \<open>Summarize\<close> calls \<open>Mean\<close> on a slice with a sample only.  No statement below
  says what the average of a summary is.
\<close>

definition Sum :: "float64 list \<Rightarrow> float64" where
  "Sum s = foldl fadd 0 s"

definition Mean :: "float64 list \<Rightarrow> float64" where
  "Mean x = fdiv (Sum x) (float64_of_int (int (length x)))"

section \<open>The pinger (ping.go, \<open>Stats\<close>, \<open>Pinger\<close>)\<close>

text \<open>
  \<open>Stats\<close> is the result of one probe.  \<open>Error\<close> is \<open>None\<close> for nil.  \<open>Meta\<close>
  maps a key to the text of its value, and \<open>Extra\<close> is the text of the payload.
\<close>

record Stats =
  Connected :: bool
  Error :: "error option"
  Duration :: Duration
  DNSDuration :: Duration
  Address :: string
  Meta :: "(string \<times> string) list"
  Extra :: "string option"

text \<open>
  What the pinger writes to \<open>out\<close>: the line of one probe (\<open>printPingResult\<close>),
  kept as the \<open>Stats\<close> it renders, and the report of \<open>Summarize\<close>, kept as the
  arguments of its \<open>Fprintf\<close> in their order.
\<close>

record Summary =
  target :: string
  probes :: int
  successful :: int
  failed :: int
  Minimum :: Duration
  Maximum :: Duration
  Average :: Duration
  p50 :: Duration
  p95 :: Duration
  p99 :: Duration

datatype written = PingResult Stats | Statistics Summary

text \<open>
  The \<open>Pinger\<close>.  \<open>stopOnce\<close> is the flag of the \<open>sync.Once\<close> (set once its function
  has run), \<open>stopC\<close> tells whether the channel is closed, \<open>out\<close> is what has been
  written to the writer.  The probe \<open>ping\<close> is the environment of the loop: its results
  arrive with the events of \<open>Ping\<close> below.
\<close>

record Pinger =
  stopOnce :: bool
  stopC :: bool
  out :: "written list"
  url :: string
  interval :: Duration
  counter :: int
  durations :: "float64 list"
  failedTotal :: int

definition NewPinger :: "written list \<Rightarrow> string \<Rightarrow> Duration \<Rightarrow> int \<Rightarrow> Pinger" where
  "NewPinger out' url' interval' counter' =
     \<lparr> stopOnce = False, stopC = False, out = out', url = url',
       interval = interval', counter = counter', durations = [], failedTotal = 0 \<rparr>"

text \<open>\<open>close(c)\<close> panics on a channel that is closed already.\<close>

definition close :: "bool \<Rightarrow> panic + bool" where
  "close c = (if c then Inl (Panic ''close of closed channel'') else Inr True)"

text \<open>
  \<open>Pinger.Stop\<close>: \<open>sync.Once.Do\<close> runs the function on the first call only, and marks
  the \<open>Once\<close> as done also when the function panics.
\<close>

definition Stop :: "Pinger \<Rightarrow> panic + Pinger" where
  "Stop p =
     (if stopOnce p then Inr p
      else (case close (stopC p) of
              Inl e \<Rightarrow> Inl e
            | Inr c \<Rightarrow> Inr (p\<lparr>stopOnce := True, stopC := c\<rparr>)))"

text \<open>\<open>n\<close> calls of \<open>Stop\<close>, one after the other; a panic ends the sequence.\<close>

fun Stop_times :: "nat \<Rightarrow> Pinger \<Rightarrow> panic + Pinger" where
  "Stop_times 0 p = Inr p"
| "Stop_times (Suc n) p = (case Stop p of Inl e \<Rightarrow> Inl e | Inr p' \<Rightarrow> Stop_times n p')"

definition logStats :: "Pinger \<Rightarrow> Stats \<Rightarrow> Pinger" where
  "logStats p stats =
     (let p1 = p\<lparr>durations := durations p @ [float64_of_int (Nanoseconds (Duration stats))]\<rparr>
      in case Error stats of
           None \<Rightarrow> p1
         | Some err \<Rightarrow>
             (let p2 = p1\<lparr>failedTotal := failedTotal p1 + 1\<rparr>
              in if errors_Is err Canceled then p2 else p2))"

definition getTotal :: "Pinger \<Rightarrow> int" where
  "getTotal p = int (length (durations p))"

definition getFailedTotal :: "Pinger \<Rightarrow> int" where
  "getFailedTotal p = failedTotal p"

definition getSuccessTotal :: "Pinger \<Rightarrow> int" where
  "getSuccessTotal p = getTotal p - getFailedTotal p"

definition getMinDuration :: "Pinger \<Rightarrow> panic + Duration" where
  "getMinDuration p = map_sum id Duration_of_float64 (Quantile 0 Empirical (durations p))"

definition getMaxDuration :: "Pinger \<Rightarrow> panic + Duration" where
  "getMaxDuration p = map_sum id Duration_of_float64 (Quantile 1 Empirical (durations p))"

definition getAvgDuration :: "Pinger \<Rightarrow> Duration" where
  "getAvgDuration p = Duration_of_float64 (Mean (durations p))"

definition printPingResult :: "Pinger \<Rightarrow> Stats \<Rightarrow> Pinger" where
  "printPingResult p stats = p\<lparr>out := out p @ [PingResult stats]\<rparr>"

text \<open>
  \<open>Pinger.Summarize\<close>.  The slice is sorted in place; the arguments of \<open>Fprintf\<close>
  are evaluated from left to right, and the first call that panics ends the function.
\<close>

definition Summarize :: "Pinger \<Rightarrow> panic + Pinger" where
  "Summarize p =
     (let p' = p\<lparr>durations := sort (durations p)\<rparr>;
          pTotal = getTotal p';
          average = (if pTotal \<noteq> 0 then getAvgDuration p' else 0)
      in (case getMinDuration p' of Inl e \<Rightarrow> Inl e | Inr mn \<Rightarrow>
         (case getMaxDuration p' of Inl e \<Rightarrow> Inl e | Inr mx \<Rightarrow>
         (case Quantile (round64 (5 / 10)) LinInterp (durations p') of Inl e \<Rightarrow> Inl e | Inr q50 \<Rightarrow>
         (case Quantile (round64 (95 / 100)) LinInterp (durations p') of Inl e \<Rightarrow> Inl e | Inr q95 \<Rightarrow>
         (case Quantile (round64 (99 / 100)) LinInterp (durations p') of Inl e \<Rightarrow> Inl e | Inr q99 \<Rightarrow>
         Inr (p'\<lparr>out := out p' @
            [Statistics \<lparr> target = url p', probes = getTotal p',
               successful = getSuccessTotal p', failed = getFailedTotal p',
               Minimum = mn, Maximum = mx, Average = average,
               p50 = Duration_of_float64 q50, p95 = Duration_of_float64 q95,
               p99 = Duration_of_float64 q99 \<rparr>]\<rparr>)))))))"

section \<open>The loop of \<open>Pinger.Ping\<close>\<close>

text \<open>
  The loop waits in a \<open>select\<close> on the timer and on \<open>p.Done()\<close>.  A run is the list
  of what happens to it:
  \<^item> \<open>Tick stats\<close>: the timer fires, the \<open>select\<close> takes its case, and the probe
    returns \<open>stats\<close>;
  \<^item> \<open>ExternalStop\<close>: another goroutine calls \<open>p.Stop()\<close>;
  \<^item> \<open>Done\<close>: the \<open>select\<close> takes the case of \<open>p.Done()\<close>, which it can only when
    the channel is closed.
  The loop state is the pinger with the locals \<open>stop\<close> and \<open>hasDiscardedFirst\<close>.
  Waiting times are not part of the embedding.
\<close>

datatype event = Tick Stats | ExternalStop | Done

record loop =
  pinger :: Pinger
  stop :: bool
  hasDiscardedFirst :: bool

text \<open>One pass through the body of \<open>for !stop\<close> on a timer tick.\<close>

definition tick :: "loop \<Rightarrow> Stats \<Rightarrow> loop" where
  "tick l stats =
     (let l1 =
        (if \<not> hasDiscardedFirst l then l\<lparr>hasDiscardedFirst := True\<rparr>
         else (let p = logStats (pinger l) stats
               in if counter p > 0 \<and> getTotal p > counter p - 1
                  then l\<lparr>pinger := p, stop := True\<rparr>
                  else l\<lparr>pinger := p\<rparr>))
      in l1\<lparr>pinger := printPingResult (pinger l1) stats\<rparr>)"

text \<open>The locals before the loop: \<open>stop := false\<close>, \<open>hasDiscardedFirst := false\<close>.\<close>

definition start :: "Pinger \<Rightarrow> loop" where
  "start p = \<lparr>pinger = p, stop = False, hasDiscardedFirst = False\<rparr>"

fun Ping_loop :: "loop \<Rightarrow> event list \<Rightarrow> panic + loop" where
  "Ping_loop l [] = Inr l"
| "Ping_loop l (e # es) =
     (if stop l then Inr l
      else (case e of
              Tick stats \<Rightarrow> Ping_loop (tick l stats) es
            | ExternalStop \<Rightarrow>
                (case Stop (pinger l) of
                   Inl err \<Rightarrow> Inl err
                 | Inr p \<Rightarrow> Ping_loop (l\<lparr>pinger := p\<rparr>) es)
            | Done \<Rightarrow>
                (if stopC (pinger l) then Ping_loop (l\<lparr>stop := True\<rparr>) es
                 else Ping_loop l es)))"

text \<open>
  \<open>Pinger.Ping\<close> on a run.  \<open>Inr (Some p)\<close>: the loop has ended and the deferred
  \<open>p.Stop()\<close> has run; \<open>Inr None\<close>: after the events of the run the loop is still
  waiting in its \<open>select\<close>.
\<close>

definition Ping :: "Pinger \<Rightarrow> event list \<Rightarrow> panic + Pinger option" where
  "Ping p es =
     (case Ping_loop (start p) es of
        Inl err \<Rightarrow> Inl err
      | Inr l \<Rightarrow>
          (if stop l then (case Stop (pinger l) of Inl err \<Rightarrow> Inl err | Inr p' \<Rightarrow> Inr (Some p'))
           else Inr None))"

section \<open>\<open>Result\<close>\<close>

text \<open>
  \<open>Result.Avg\<close> divides two \<open>int64\<close>: an integer division panics on a zero divisor
  and rounds to zero otherwise; the quotient of the least \<open>int64\<close> by \<open>-1\<close> wraps.
  \<open>Counter\<close> and \<open>SuccessCounter\<close> are \<open>int\<close>, of 64 bits on the platforms the
  program is built for.  \<open>Target\<close> is the text of the target, \<open>None\<close> for nil.
\<close>

record Result =
  Counter :: "64 word"
  SuccessCounter :: "64 word"
  Target :: "string option"
  MinDuration :: Duration
  MaxDuration :: Duration
  TotalDuration :: Duration

definition int64_div :: "64 word \<Rightarrow> 64 word \<Rightarrow> panic + 64 word" where
  "int64_div a b =
     (if b = 0 then Inl (Panic ''runtime error: integer divide by zero'')
      else Inr (word_of_int (sint a sdiv sint b)))"

definition Avg :: "Result \<Rightarrow> panic + Duration" where
  "Avg result =
     (if SuccessCounter result = 0 then Inr 0
      else int64_div (TotalDuration result) (SuccessCounter result))"

definition Failed :: "Result \<Rightarrow> 64 word" where
  "Failed result = Counter result - SuccessCounter result"

section \<open>Auxiliary definitions\<close>

text \<open>The sample \<open>logStats\<close> stores for a probe.\<close>

definition sample :: "Stats \<Rightarrow> float64" where
  "sample stats = float64_of_int (Nanoseconds (Duration stats))"

text \<open>What a tick after the first does to the pinger: \<open>logStats\<close>, then \<open>printPingResult\<close>.\<close>

definition observe :: "Pinger \<Rightarrow> Stats \<Rightarrow> Pinger" where
  "observe p stats = printPingResult (logStats p stats) stats"

text \<open>A probe result with a duration and an error, for the examples.\<close>

definition probe :: "Duration \<Rightarrow> error option \<Rightarrow> Stats" where
  "probe d e =
     \<lparr> Connected = (e = None), Error = e, Duration = d, DNSDuration = 0,
       Address = ''93.184.216.34:80'', Meta = [], Extra = None \<rparr>"

text \<open>
  The numbers a \<open>float64\<close> holds exactly, the exponent left unbounded: an integer of
  less than 54 bits times a power of two.
\<close>

definition representable :: "rat \<Rightarrow> bool" where
  "representable x \<longleftrightarrow> (\<exists>m e. \<bar>m\<bar> < 2 ^ 53 \<and> x = of_int m * pow2 e)"

text \<open>The report that a call of \<open>Summarize\<close> wrote, when the call returned.\<close>

definition report :: "panic + Pinger \<Rightarrow> Summary option" where
  "report r =
     (case r of
        Inl e \<Rightarrow> None
      | Inr p \<Rightarrow> (case last (out p) of PingResult s \<Rightarrow> None | Statistics sm \<Rightarrow> Some sm))"

text \<open>The five order statistics of a report, from the minimum to the maximum.\<close>

definition order_statistics :: "Summary \<Rightarrow> Duration list" where
  "order_statistics sm = [Minimum sm, p50 sm, p95 sm, p99 sm, Maximum sm]"

declare bitlen.simps [simp del]
declare empiricalQuantile_loop.simps [simp del]
declare linInterpQuantile_loop.simps [simp del]

section \<open>Protocol names\<close>

lemma String_simps:
  "String TCP = ''tcp''" "String HTTP = ''http''" "String HTTPS = ''https''"
  by (simp_all add: String_def TCP_def HTTP_def HTTPS_def)

lemma ToLower_canonical:
  "ToLower ''tcp'' = ''tcp''" "ToLower ''http'' = ''http''" "ToLower ''https'' = ''https''"
  by (simp_all add: ToLower_def toLowerByte_def)

lemma Protocol_distinct: "TCP \<noteq> HTTP" "TCP \<noteq> HTTPS" "HTTP \<noteq> HTTPS"
  by (simp_all add: TCP_def HTTP_def HTTPS_def)

text \<open>
  Claim C7.  Parsing a protocol name ignores the case of the letters and always answers:
  \<open>NewProtocol s\<close> returns a protocol exactly when the lower-case form of \<open>s\<close> is the
  name of one of \<open>TCP\<close>, \<open>HTTP\<close>, \<open>HTTPS\<close>, and then it is that protocol, so
  that \<open>NewProtocol (String p)\<close> gives \<open>p\<close> back; on every other string it returns the
  error \<open>protocol s not support\<close>.
\<close>

theorem NewProtocol_case_insensitive_total:
  "(NewProtocol s = Inr p \<longleftrightarrow> (p = TCP \<or> p = HTTP \<or> p = HTTPS) \<and> ToLower s = String p)
   \<and> ((p = TCP \<or> p = HTTP \<or> p = HTTPS) \<longrightarrow> NewProtocol (String p) = Inr p)
   \<and> (ToLower s \<noteq> ''tcp'' \<and> ToLower s \<noteq> ''http'' \<and> ToLower s \<noteq> ''https'' \<longrightarrow>
        NewProtocol s = Inl (ErrorString (''protocol '' @ s @ '' not support'')))"
proof (intro conjI)
  show "NewProtocol s = Inr p \<longleftrightarrow> (p = TCP \<or> p = HTTP \<or> p = HTTPS) \<and> ToLower s = String p"
    using Protocol_distinct by (auto simp: NewProtocol_def Let_def String_simps)
  show "(p = TCP \<or> p = HTTP \<or> p = HTTPS) \<longrightarrow> NewProtocol (String p) = Inr p"
    using Protocol_distinct by (auto simp: NewProtocol_def Let_def String_simps ToLower_canonical)
  show "ToLower s \<noteq> ''tcp'' \<and> ToLower s \<noteq> ''http'' \<and> ToLower s \<noteq> ''https'' \<longrightarrow>
        NewProtocol s = Inl (ErrorString (''protocol '' @ s @ '' not support''))"
    by (simp add: NewProtocol_def Let_def String_simps)
qed

theorem NewProtocol_case_insensitive_total_witness:
  "NewProtocol ''HtTpS'' = Inr HTTPS \<and> NewProtocol (String HTTPS) = Inr HTTPS
   \<and> NewProtocol ''udp'' = Inl (ErrorString ''protocol udp not support'')"
proof -
  have l: "ToLower ''HtTpS'' = String HTTPS" "ToLower ''udp'' = ''udp''"
    by code_simp+
  show ?thesis
    using NewProtocol_case_insensitive_total [of "''HtTpS''" HTTPS]
      NewProtocol_case_insensitive_total [of "''udp''" HTTPS] l
    by simp
qed

section \<open>Error classification\<close>

text \<open>
  Claim C3, as the code has it.  \<open>formatError\<close> maps to \<open>timeout\<close> an error that is a
  \<open>*url.Error\<close> or a \<open>net.Error\<close> and reports \<open>Timeout()\<close> (the deadline error
  of package \<open>context\<close> is one), and any error of another type for which
  \<open>errors.Is(err, context.DeadlineExceeded)\<close> holds, be it by equality or by an
  \<open>Is\<close> method, of the error or of an error it wraps.  A \<open>*url.Error\<close> that is no
  timeout is formatted as the error it wraps.  A \<open>*net.OpError\<close> that is no timeout
  and wraps an \<open>*os.SyscallError\<close> maps to the text of the error inside the
  \<open>SyscallError\<close>.  Every other error maps to its \<open>Error()\<close> text, and so does
  \<open>context.Canceled\<close>, whose text is \<open>context canceled\<close>.
\<close>

theorem formatError_classification:
  "(is_net_Error err \<and> error_Timeout err = Some True \<longrightarrow> formatError err = ''timeout'')
   \<and> (\<not> is_net_Error err \<and> errors_Is err DeadlineExceeded \<longrightarrow> formatError err = ''timeout'')
   \<and> (error_Timeout (URLError msg e) \<noteq> Some True \<longrightarrow>
        formatError (URLError msg e) = formatError e)
   \<and> (error_Timeout (OpError op net source addr (SyscallError syscall e)) \<noteq> Some True \<longrightarrow>
        formatError (OpError op net source addr (SyscallError syscall e)) = error_Error e)
   \<and> (is_net_Error err \<and> error_Timeout err \<noteq> Some True
        \<and> (\<forall>m' e'. err \<noteq> URLError m' e')
        \<and> (\<forall>op' net' source' addr' syscall' e'.
               err \<noteq> OpError op' net' source' addr' (SyscallError syscall' e')) \<longrightarrow>
        formatError err = error_Error err)
   \<and> (\<not> is_net_Error err \<and> \<not> errors_Is err DeadlineExceeded \<longrightarrow>
        formatError err = error_Error err)
   \<and> formatError Canceled = ''context canceled''"
proof (intro conjI impI)
  show "formatError err = ''timeout''" if "is_net_Error err \<and> error_Timeout err = Some True"
    using that by (cases err) simp_all
  show "formatError err = ''timeout''" if "\<not> is_net_Error err \<and> errors_Is err DeadlineExceeded"
    using that by (cases err) auto
  show "formatError (URLError msg e) = formatError e" if "error_Timeout (URLError msg e) \<noteq> Some True"
    using that by simp
  show "formatError (OpError op net source addr (SyscallError syscall e)) = error_Error e"
    if "error_Timeout (OpError op net source addr (SyscallError syscall e)) \<noteq> Some True"
    using that by simp
  show "formatError err = error_Error err"
    if "is_net_Error err \<and> error_Timeout err \<noteq> Some True
        \<and> (\<forall>m' e'. err \<noteq> URLError m' e')
        \<and> (\<forall>op' net' source' addr' syscall' e'.
               err \<noteq> OpError op' net' source' addr' (SyscallError syscall' e'))"
    using that by (cases err) (auto split: error.splits)
  show "formatError err = error_Error err" if "\<not> is_net_Error err \<and> \<not> errors_Is err DeadlineExceeded"
    using that by (cases err) auto
  show "formatError Canceled = ''context canceled''"
    by simp
qed

theorem formatError_classification_witness:
  "formatError timeoutError = ''timeout''
   \<and> formatError (OpError ''dial'' ''tcp'' None (Some ''93.184.216.34:80'') timeoutError)
       = ''timeout''
   \<and> formatError (WrapError ''probe: context deadline exceeded'' DeadlineExceeded) = ''timeout''
   \<and> formatError (WrapError ''probe: dial tcp 93.184.216.34:80: i/o timeout''
          (OpError ''dial'' ''tcp'' None (Some ''93.184.216.34:80'') timeoutError)) = ''timeout''
   \<and> formatError (URLError ''Get \"http://example.com\": EOF'' (ErrorString ''EOF'')) = ''EOF''
   \<and> formatError (OpError ''dial'' ''tcp'' None (Some ''93.184.216.34:80'')
          (SyscallError ''connect'' (Errno 111 ''connection refused''))) = ''connection refused''
   \<and> formatError (OpError ''dial'' ''tcp'' None (Some ''93.184.216.34:80'') canceledError)
       = ''dial tcp 93.184.216.34:80: operation was canceled''
   \<and> formatError (WrapError ''probe: operation was canceled'' canceledError)
       = ''probe: operation was canceled''
   \<and> formatError (ErrorString ''EOF'') = ''EOF''"
proof -
  have n: "ETIMEDOUT \<noteq> 111" "EAGAIN \<noteq> 111" "EWOULDBLOCK \<noteq> 111"
    by (simp_all add: ETIMEDOUT_def EAGAIN_def EWOULDBLOCK_def)
  show ?thesis
    using
      formatError_classification [where err = timeoutError]
      formatError_classification
        [where err = "OpError ''dial'' ''tcp'' None (Some ''93.184.216.34:80'') timeoutError"]
      formatError_classification
        [where err = "WrapError ''probe: context deadline exceeded'' DeadlineExceeded"
           and msg = "''Get \"http://example.com\": EOF''" and e = "ErrorString ''EOF''"]
      formatError_classification
        [where err = "WrapError ''probe: dial tcp 93.184.216.34:80: i/o timeout''
             (OpError ''dial'' ''tcp'' None (Some ''93.184.216.34:80'') timeoutError)"]
      formatError_classification
        [where err = "OpError ''dial'' ''tcp'' None (Some ''93.184.216.34:80'') canceledError"
           and op = "''dial''" and net = "''tcp''" and source = None
           and addr = "Some ''93.184.216.34:80''" and syscall = "''connect''"
           and e = "Errno 111 ''connection refused''"]
      formatError_classification
        [where err = "WrapError ''probe: operation was canceled'' canceledError"]
      formatError_classification [where err = "ErrorString ''EOF''"]
      n
    by (simp add: timeoutError_def canceledError_def)
qed

text \<open>
  Claim C3, as stated, fails: a context cancellation is formatted as its own text, not
  as \<open>timeout\<close>.
\<close>

theorem formatError_Canceled_not_timeout:
  "formatError Canceled = ''context canceled'' \<and> formatError Canceled \<noteq> ''timeout''"
  by simp

section \<open>The aggregator\<close>

lemma getTotal_logStats: "getTotal (logStats p stats) = getTotal p + 1"
  by (simp add: logStats_def getTotal_def Let_def split: option.splits)

lemma failedTotal_logStats:
  "failedTotal (logStats p stats) = failedTotal p + (if Error stats = None then 0 else 1)"
  by (simp add: logStats_def Let_def split: option.splits)

lemma failedTotal_bounds:
  "0 \<le> failedTotal p \<Longrightarrow> failedTotal p \<le> getTotal p \<Longrightarrow>
   0 \<le> failedTotal (foldl logStats p ss) \<and> failedTotal (foldl logStats p ss) \<le> getTotal (foldl logStats p ss)"
  by (induction ss arbitrary: p) (simp_all add: getTotal_logStats failedTotal_logStats)

text \<open>
  Claim C1 asks that a probe whose error is a cancellation
  (\<open>errors.Is(err, context.Canceled)\<close>) leaves the failure counter alone.
  \<open>logStats\<close> increments the counter before it looks at the kind of the error: a
  probe that ended with \<open>context.Canceled\<close> adds one failure, on a new pinger and on
  any other.  So does the run in which \<open>Stop\<close> is called while the third probe is
  in flight, and that probe returns cancelled: the pinger ends with one failure.
\<close>

theorem logStats_counts_cancellation:
  "errors_Is Canceled Canceled
   \<and> getFailedTotal (logStats (NewPinger [] ''http://example.com'' 0 0)
        (probe 1000000 (Some Canceled))) = 1
   \<and> getFailedTotal (logStats p (stats\<lparr>Error := Some Canceled\<rparr>)) = getFailedTotal p + 1
   \<and> map_sum id (map_option getFailedTotal)
        (Ping (NewPinger [] ''http://example.com'' 0 0)
           [Tick (probe 10000000 None), Tick (probe 10000000 None), ExternalStop,
            Tick (probe 3000000 (Some Canceled)), Done]) = Inr (Some 1)"
  by (simp add: Ping_def start_def tick_def logStats_def printPingResult_def Stop_def close_def
      NewPinger_def probe_def getFailedTotal_def getTotal_def Let_def)

text \<open>
  Claim C9.  After any sequence of \<open>logStats\<close> calls, from any pinger, the total is
  the sum of the reported successes and the failures; from a new pinger both counts
  are not negative.
\<close>

theorem total_is_successes_plus_failures:
  "getTotal (foldl logStats p ss)
     = getSuccessTotal (foldl logStats p ss) + getFailedTotal (foldl logStats p ss)
   \<and> 0 \<le> getFailedTotal (foldl logStats (NewPinger out' url' interval' counter') ss)
   \<and> 0 \<le> getSuccessTotal (foldl logStats (NewPinger out' url' interval' counter') ss)"
proof -
  have "0 \<le> failedTotal (NewPinger out' url' interval' counter')"
    "failedTotal (NewPinger out' url' interval' counter') \<le> getTotal (NewPinger out' url' interval' counter')"
    by (simp_all add: NewPinger_def getTotal_def)
  from failedTotal_bounds [OF this] show ?thesis
    by (simp add: getSuccessTotal_def getFailedTotal_def)
qed

text \<open>
  Claim C2 asks that \<open>Summarize\<close> on a pinger without samples reports zeros.  The mean
  is guarded by \<open>pTotal != 0\<close>, the quantiles are not: \<open>getMinDuration\<close> calls
  \<open>stat.Quantile\<close> on the empty slice, which panics.
\<close>

theorem Summarize_empty_panics:
  "Summarize (NewPinger out' url' interval' counter') = Inl (Panic ''stat: zero length slice'')"
  by (simp add: Summarize_def NewPinger_def Let_def getMinDuration_def Quantile_def)

section \<open>Stopping\<close>

text \<open>
  Claim C8.  A call of \<open>Stop\<close> that returns leaves a pinger on which every further
  call changes nothing, so \<open>n \<ge> 1\<close> calls in a row end in the state of the first;
  and the first call on a pinger whose \<open>Once\<close> has not run closes the channel.
\<close>

theorem Stop_idempotent:
  assumes "Stop p = Inr p'" and "1 \<le> n"
  shows "Stop_times n p = Inr p' \<and> Stop p' = Inr p' \<and> (\<not> stopOnce p \<longrightarrow> stopC p' \<and> stopOnce p')"
proof -
  have once: "stopOnce p'"
    using assms(1) by (auto simp: Stop_def close_def split: if_splits)
  then have again: "Stop p' = Inr p'"
    by (simp add: Stop_def)
  have rep: "Stop_times k p' = Inr p'" for k
    by (induction k) (simp_all add: again)
  obtain k where "n = Suc k"
    using assms(2) by (cases n) auto
  then have "Stop_times n p = Inr p'"
    using assms(1) rep by simp
  moreover have "\<not> stopOnce p \<longrightarrow> stopC p' \<and> stopOnce p'"
    using assms(1) by (auto simp: Stop_def close_def split: if_splits)
  ultimately show ?thesis
    using again by simp
qed

theorem Stop_idempotent_witness:
  "Stop (NewPinger [] ''http://example.com'' 0 3)
     = Inr ((NewPinger [] ''http://example.com'' 0 3)\<lparr>stopOnce := True, stopC := True\<rparr>)
   \<and> Stop_times 4 (NewPinger [] ''http://example.com'' 0 3)
     = Inr ((NewPinger [] ''http://example.com'' 0 3)\<lparr>stopOnce := True, stopC := True\<rparr>)"
proof -
  have s: "Stop (NewPinger [] ''http://example.com'' 0 3)
     = Inr ((NewPinger [] ''http://example.com'' 0 3)\<lparr>stopOnce := True, stopC := True\<rparr>)"
    by (simp add: Stop_def close_def NewPinger_def)
  show ?thesis
    using Stop_idempotent [OF s, of 4] s by simp
qed

section \<open>Rounding to \<open>float64\<close>\<close>

lemma pow2_powi: "pow2 k = 2 powi k"
  by (simp add: pow2_def power_int_def field_simps power_inverse)

lemma pow2_pos [simp]: "0 < pow2 k"
  by (simp add: pow2_powi)

lemma pow2_nonzero [simp]: "pow2 k \<noteq> 0"
  using pow2_pos [of k] by linarith

lemma pow2_not_neg [simp]: "\<not> pow2 k < 0" "\<not> pow2 k \<le> 0"
  using pow2_pos [of k] by linarith+

lemma pow2_nonneg [simp]: "0 \<le> pow2 k"
  using pow2_pos [of k] by linarith

lemma pow2_add: "pow2 (a + b) = pow2 a * pow2 b"
  by (simp add: pow2_powi power_int_add)

lemma pow2_consts: "pow2 0 = 1" "pow2 1 = 2" "pow2 52 = 2 ^ 52" "pow2 53 = 2 ^ 53"
  by (simp_all add: pow2_def)

lemma pow2_nat: "0 \<le> k \<Longrightarrow> pow2 k = of_int (2 ^ nat k)"
  by (simp add: pow2_def)

lemma pow2_mono: "a \<le> b \<Longrightarrow> pow2 a \<le> pow2 b"
  unfolding pow2_powi by (rule power_int_increasing) simp_all

lemma pow2_strict_mono: "a < b \<Longrightarrow> pow2 a < pow2 b"
  unfolding pow2_powi by (rule power_int_strict_increasing) simp_all

lemma pow2_le_iff [simp]: "pow2 a \<le> pow2 b \<longleftrightarrow> a \<le> b"
  using pow2_mono [of a b] pow2_strict_mono [of b a] by (auto simp: not_le [symmetric])

lemma pow2_less_iff [simp]: "pow2 a < pow2 b \<longleftrightarrow> a < b"
  using pow2_mono [of b a] pow2_strict_mono [of a b] by (auto simp: not_less [symmetric])

lemma bitlen_pos: "0 < k \<Longrightarrow> 0 < bitlen k"
proof -
  assume k: "0 < k"
  have "0 \<le> bitlen n" for n
    by (induction n rule: bitlen.induct) (subst bitlen.simps, simp)
  then have "0 < 1 + bitlen (k div 2)"
    by (simp add: add_pos_nonneg)
  then show ?thesis
    using k by (subst bitlen.simps) simp
qed

lemma bitlen_bounds: "0 < k \<Longrightarrow> 2 ^ nat (bitlen k - 1) \<le> k \<and> k < 2 ^ nat (bitlen k)"
proof (induction k rule: bitlen.induct)
  case (1 k)
  have b: "bitlen k = 1 + bitlen (k div 2)"
    using "1.prems" by (subst bitlen.simps) simp
  show ?case
  proof (cases "k div 2 = 0")
    case True
    then have "k = 1" using "1.prems" by presburger
    then show ?thesis by (simp add: bitlen.simps)
  next
    case False
    then have h: "0 < k div 2"
      using "1.prems" by simp
    then have ih: "2 ^ nat (bitlen (k div 2) - 1) \<le> k div 2" "k div 2 < 2 ^ nat (bitlen (k div 2))"
      using "1.IH" "1.prems" by auto
    have pos: "0 < bitlen (k div 2)"
      using h by (rule bitlen_pos)
    then have n: "nat (bitlen (k div 2)) = Suc (nat (bitlen (k div 2) - 1))"
      by simp
    have "(2::int) ^ nat (bitlen k - 1) = 2 * 2 ^ nat (bitlen (k div 2) - 1)"
      using n by (simp add: b)
    also have "\<dots> \<le> 2 * (k div 2)"
      using ih(1) by simp
    also have "\<dots> \<le> k"
      by presburger
    finally have lo: "2 ^ nat (bitlen k - 1) \<le> k" .
    have "k < 2 * (k div 2) + 2"
      by presburger
    also have "\<dots> \<le> 2 * 2 ^ nat (bitlen (k div 2))"
      using ih(2) by simp
    also have "\<dots> = 2 ^ nat (bitlen k)"
      using pos by (simp add: b nat_add_distrib)
    finally show ?thesis
      using lo by simp
  qed
qed

lemma bitlen_pow2:
  assumes "0 < k"
  shows "pow2 (bitlen k - 1) \<le> of_int k" and "of_int k < pow2 (bitlen k)"
proof -
  have pos: "0 < bitlen k"
    using assms by (rule bitlen_pos)
  have "(of_int (2 ^ nat (bitlen k - 1)) :: rat) \<le> of_int k"
    using bitlen_bounds [OF assms] by (simp only: of_int_le_iff)
  then show "pow2 (bitlen k - 1) \<le> of_int k"
    using pos by (simp add: pow2_nat)
  have "(of_int k :: rat) < of_int (2 ^ nat (bitlen k))"
    using bitlen_bounds [OF assms] by (simp only: of_int_less_iff)
  then show "of_int k < pow2 (bitlen k)"
    using pos by (simp add: pow2_nat)
qed

lemma ilog2_bounds:
  assumes "0 < x"
  shows "pow2 (ilog2 x) \<le> x" and "x < pow2 (ilog2 x + 1)"
proof -
  obtain a b where q: "quotient_of x = (a, b)" by (cases "quotient_of x")
  have b: "0 < b" using q quotient_of_denom_pos by blast
  have x: "x = of_int a / of_int b" using q quotient_of_div by blast
  have a: "0 < a" using assms b by (simp add: x zero_less_divide_iff)
  define k where "k = bitlen a - bitlen b"
  note ra' = bitlen_pow2 [OF a] and rb' = bitlen_pow2 [OF b]
  have bpos: "(0::rat) < of_int b"
    using b by simp
  have up: "x < pow2 (k + 1)"
  proof -
    have "pow2 (k + 1) * pow2 (bitlen b - 1) = pow2 (bitlen a)"
      by (simp add: k_def flip: pow2_add)
    then have "of_int a < pow2 (k + 1) * pow2 (bitlen b - 1)"
      using ra'(2) by (simp only:)
    also have "\<dots> \<le> pow2 (k + 1) * of_int b"
      using rb'(1) by (intro mult_left_mono) (simp_all add: less_imp_le)
    finally show ?thesis
      unfolding x using bpos by (simp only: pos_divide_less_eq)
  qed
  have lo: "pow2 (k - 1) < x"
  proof -
    have "pow2 (k - 1) * of_int b < pow2 (k - 1) * pow2 (bitlen b)"
      using rb'(2) by (intro mult_strict_left_mono) simp_all
    also have "\<dots> = pow2 (bitlen a - 1)"
      by (simp add: k_def flip: pow2_add)
    also have "\<dots> \<le> of_int a"
      by (rule ra'(1))
    finally show ?thesis
      unfolding x using bpos by (simp only: pos_less_divide_eq)
  qed
  have il: "ilog2 x = (if pow2 k \<le> x then k else k - 1)"
    by (simp add: ilog2_def q k_def Let_def)
  show "pow2 (ilog2 x) \<le> x"
    using lo by (auto simp: il)
  show "x < pow2 (ilog2 x + 1)"
    using up by (auto simp: il)
qed

lemma roundEven_of_int [simp]: "roundEven (of_int n) = n"
  by (simp add: roundEven_def)

lemma roundEven_floor_le: "\<lfloor>m\<rfloor> \<le> roundEven m"
  by (simp add: roundEven_def Let_def)

lemma roundEven_le_ceiling: "roundEven m \<le> \<lceil>m\<rceil>"
proof (cases "m = of_int \<lfloor>m\<rfloor>")
  case True
  then have "roundEven m = \<lfloor>m\<rfloor>"
    by (metis roundEven_of_int)
  then show ?thesis
    by (simp add: floor_le_ceiling)
next
  case False
  then have "\<lceil>m\<rceil> = \<lfloor>m\<rfloor> + 1"
    by (metis ceiling_altdef)
  then show ?thesis
    by (simp add: roundEven_def Let_def)
qed

lemma roundEven_minus: "roundEven (- m) = - roundEven m"
proof (cases "m = of_int \<lfloor>m\<rfloor>")
  case True
  then obtain n where "m = of_int n" ..
  then have "roundEven m = n" "roundEven (- m) = - n"
    using roundEven_of_int [of "- n"] by simp_all
  then show ?thesis by simp
next
  case False
  define f where "f = \<lfloor>m\<rfloor>"
  define d where "d = m - of_int f"
  have d: "0 < d" "d < 1"
    using False by (simp_all add: d_def f_def less_le) linarith+
  have fl: "\<lfloor>- m\<rfloor> = - f - 1"
  proof (rule floor_unique)
    show "of_int (- f - 1) \<le> - m" using d by (simp add: d_def)
    show "- m < of_int (- f - 1) + 1" using d by (simp add: d_def)
  qed
  have d': "- m - of_int (- f - 1) = 1 - d"
    by (simp add: d_def)
  have ev: "even (- f - 1) \<longleftrightarrow> odd f"
    by simp
  have "roundEven m = (if d < 1 / 2 then f else if 1 / 2 < d then f + 1 else if even f then f else f + 1)"
    by (simp add: roundEven_def Let_def f_def d_def)
  moreover have "roundEven (- m) =
      (if 1 - d < 1 / 2 then - f - 1 else if 1 / 2 < 1 - d then - f else if odd f then - f - 1 else - f)"
    unfolding roundEven_def Let_def fl d' ev by simp
  ultimately show ?thesis
    by auto
qed

lemma ilog2_scaled:
  assumes "0 < x"
  shows "2 ^ 52 \<le> x / pow2 (ilog2 x - 52)" and "x / pow2 (ilog2 x - 52) < 2 ^ 53"
proof -
  have a: "pow2 (ilog2 x) = pow2 52 * pow2 (ilog2 x - 52)"
    by (simp flip: pow2_add)
  have b: "pow2 (ilog2 x + 1) = pow2 53 * pow2 (ilog2 x - 52)"
    using pow2_add [of 53 "ilog2 x - 52"] by (simp add: algebra_simps)
  have p: "pow2 52 = 2 ^ 52" "pow2 53 = 2 ^ 53"
    by (simp_all add: pow2_def)
  show "2 ^ 52 \<le> x / pow2 (ilog2 x - 52)"
    using ilog2_bounds(1) [OF assms] unfolding a p by (simp add: pos_le_divide_eq)
  show "x / pow2 (ilog2 x - 52) < 2 ^ 53"
    using ilog2_bounds(2) [OF assms] unfolding b p by (simp add: pos_divide_less_eq)
qed

lemma round64_pos:
  "0 < x \<Longrightarrow> round64 x = of_int (roundEven (x / pow2 (ilog2 x - 52))) * pow2 (ilog2 x - 52)"
  by (simp add: round64_def Let_def)

lemma round64_minus: "round64 (- x) = - round64 x"
  by (simp add: round64_def Let_def roundEven_minus)

lemma round64_0 [simp]: "round64 0 = 0"
  by (simp add: round64_def)

lemma representable_minus: "representable x \<Longrightarrow> representable (- x)"
  unfolding representable_def
proof (elim exE conjE)
  fix m e assume "\<bar>m\<bar> < 2 ^ 53" "x = of_int m * pow2 e"
  then have "\<bar>- m\<bar> < 2 ^ 53 \<and> - x = of_int (- m) * pow2 e" by simp
  then show "\<exists>m e. \<bar>m\<bar> < 2 ^ 53 \<and> - x = of_int m * pow2 e" by blast
qed

lemma representable_of_int: "\<bar>n\<bar> \<le> 2 ^ 53 \<Longrightarrow> representable (of_int n)"
proof -
  assume n: "\<bar>n\<bar> \<le> 2 ^ 53"
  show ?thesis
  proof (cases "\<bar>n\<bar> < 2 ^ 53")
    case True
    then have "\<bar>n\<bar> < 2 ^ 53 \<and> (of_int n :: rat) = of_int n * pow2 0"
      by (simp add: pow2_def)
    then show ?thesis unfolding representable_def by blast
  next
    case False
    then have "n = 2 ^ 53 \<or> n = - (2 ^ 53)" using n by linarith
    then have "\<bar>n div 2\<bar> < 2 ^ 53 \<and> (of_int n :: rat) = of_int (n div 2) * pow2 1"
      by (auto simp: pow2_def)
    then show ?thesis unfolding representable_def by blast
  qed
qed

lemma representable_half: "representable x \<Longrightarrow> representable (x / 2)"
  unfolding representable_def
proof (elim exE conjE)
  fix m e assume m: "\<bar>m\<bar> < 2 ^ 53" "x = of_int m * pow2 e"
  have "pow2 e = 2 * pow2 (e - 1)"
    using pow2_add [of 1 "e - 1"] by (simp add: pow2_def)
  then have "x / 2 = of_int m * pow2 (e - 1)"
    by (simp add: m)
  then show "\<exists>m e. \<bar>m\<bar> < 2 ^ 53 \<and> x / 2 = of_int m * pow2 e"
    using m(1) by blast
qed

text \<open>Scaling a positive representable number by its own exponent gives an integer.\<close>

lemma representable_scaled:
  assumes "0 < x" and "x = of_int m * pow2 e" and "\<bar>m\<bar> < 2 ^ 53" and "E \<le> ilog2 x - 52"
  shows "x / pow2 E = of_int (m * 2 ^ nat (e - E))" and "E \<le> e"
proof -
  have mpos: "0 < m"
    using assms(1,2) by (simp add: zero_less_mult_iff)
  have "(of_int m :: rat) < of_int (2 ^ 53)"
    using assms(3) mpos by simp
  then have "x < 2 ^ 53 * pow2 e"
    unfolding assms(2) by (intro mult_strict_right_mono) simp_all
  also have "\<dots> = pow2 (53 + e)"
    by (simp only: pow2_add pow2_consts)
  finally have "pow2 (ilog2 x) < pow2 (53 + e)"
    using ilog2_bounds(1) [OF assms(1)] by linarith
  then have "ilog2 x < 53 + e"
    by simp
  then show E: "E \<le> e"
    using assms(4) by simp
  have "pow2 e = pow2 (e - E) * pow2 E"
    by (simp flip: pow2_add)
  then have "x / pow2 E = of_int m * pow2 (e - E)"
    by (simp add: assms(2))
  also have "\<dots> = of_int (m * 2 ^ nat (e - E))"
    using E by (simp add: pow2_nat)
  finally show "x / pow2 E = of_int (m * 2 ^ nat (e - E))" .
qed

lemma round64_representable_pos:
  assumes "0 < x" and "representable x"
  shows "round64 x = x"
proof -
  obtain m e where m: "\<bar>m\<bar> < 2 ^ 53" "x = of_int m * pow2 e"
    using assms(2) unfolding representable_def by blast
  let ?E = "ilog2 x - 52"
  have "x / pow2 ?E = of_int (m * 2 ^ nat (e - ?E))"
    by (rule representable_scaled(1) [OF assms(1) m(2) m(1)]) simp
  then have "round64 x = (x / pow2 ?E) * pow2 ?E"
    by (simp only: round64_pos [OF assms(1)] roundEven_of_int)
  then show ?thesis by simp
qed

lemma round64_representable: "representable x \<Longrightarrow> round64 x = x"
proof -
  assume r: "representable x"
  consider "0 < x" | "x = 0" | "x < 0" by linarith
  then show ?thesis
  proof cases
    case 1 then show ?thesis using r by (rule round64_representable_pos)
  next
    case 2 then show ?thesis by simp
  next
    case 3
    then have "round64 (- x) = - x"
      using r by (intro round64_representable_pos representable_minus) simp_all
    then show ?thesis by (simp add: round64_minus)
  qed
qed


lemma small_exponent_below:
  assumes "\<bar>m\<bar> < 2 ^ 53" and "e < E"
  shows "of_int m * pow2 e / pow2 E < 2 ^ 52"
proof -
  have "pow2 e = pow2 (e - E) * pow2 E"
    by (simp flip: pow2_add)
  then have z: "of_int m * pow2 e / pow2 E = of_int m * pow2 (e - E)"
    by simp
  have "pow2 (e - E) \<le> pow2 (- 1)"
    using assms(2) by simp
  then have h: "pow2 (e - E) \<le> 1 / 2"
    by (simp add: pow2_def)
  show ?thesis
  proof (cases "0 \<le> m")
    case True
    then have "of_int m * pow2 (e - E) \<le> of_int m * (1 / 2)"
      using h by (intro mult_left_mono) simp_all
    moreover have "(of_int m :: rat) < 2 ^ 53"
      using assms(1) True by (metis abs_of_nonneg of_int_less_numeral_power_cancel_iff)
    ultimately show ?thesis
      unfolding z by simp
  next
    case False
    then have "of_int m * pow2 (e - E) \<le> 0"
      by (simp add: mult_le_0_iff)
    then show ?thesis
      unfolding z by simp
  qed
qed

lemma round64_le_pos:
  assumes "0 < x" and "x \<le> b" and "representable b"
  shows "round64 x \<le> b"
proof -
  obtain m e where m: "\<bar>m\<bar> < 2 ^ 53" "b = of_int m * pow2 e"
    using assms(3) unfolding representable_def by blast
  define E where "E = ilog2 x - 52"
  define y where "y = x / pow2 E"
  have b: "0 < b" using assms(1,2) by simp
  have y: "2 ^ 52 \<le> y"
    using ilog2_scaled(1) [OF assms(1)] by (simp add: y_def E_def)
  have yz: "y \<le> b / pow2 E"
    unfolding y_def using assms(2) by (intro divide_right_mono) simp_all
  have "E \<le> e"
  proof (rule ccontr)
    assume "\<not> E \<le> e"
    then have "b / pow2 E < 2 ^ 52"
      using small_exponent_below [OF m(1), of e E] by (simp add: m(2))
    then show False using y yz by simp
  qed
  have "E \<le> ilog2 b - 52"
  proof -
    have "pow2 (ilog2 x) \<le> b"
      using ilog2_bounds(1) [OF assms(1)] assms(2) by simp
    also have "b < pow2 (ilog2 b + 1)"
      by (rule ilog2_bounds(2) [OF b])
    finally show ?thesis by (simp add: E_def)
  qed
  then have z: "b / pow2 E = of_int (m * 2 ^ nat (e - E))"
    by (rule representable_scaled(1) [OF b m(2) m(1)])
  have "roundEven y \<le> \<lceil>y\<rceil>"
    by (rule roundEven_le_ceiling)
  also have "\<lceil>y\<rceil> \<le> m * 2 ^ nat (e - E)"
    using yz unfolding z by (simp only: ceiling_le_iff)
  finally have "(of_int (roundEven y) :: rat) \<le> b / pow2 E"
    unfolding z by (simp only: of_int_le_iff)
  then have "of_int (roundEven y) * pow2 E \<le> b"
    by (simp add: pos_le_divide_eq)
  then show ?thesis
    by (simp add: round64_pos [OF assms(1)] y_def E_def)
qed

lemma round64_ge_pos:
  assumes "0 < x" and "a \<le> x" and "representable a"
  shows "a \<le> round64 x"
proof -
  define E where "E = ilog2 x - 52"
  define y where "y = x / pow2 E"
  have y: "2 ^ 52 \<le> y"
    using ilog2_scaled(1) [OF assms(1)] by (simp add: y_def E_def)
  then have fl: "2 ^ 52 \<le> \<lfloor>y\<rfloor>"
    by (simp add: le_floor_iff)
  have r: "\<lfloor>y\<rfloor> \<le> roundEven y"
    by (rule roundEven_floor_le)
  have r64: "round64 x = of_int (roundEven y) * pow2 E"
    by (simp add: round64_pos [OF assms(1)] y_def E_def)
  show ?thesis
  proof (cases "0 < a")
    case False
    have "(0::int) \<le> 2 ^ 52" by simp
    then have "0 \<le> roundEven y" using fl r by linarith
    then have "0 \<le> round64 x" by (simp add: r64)
    then show ?thesis using False by simp
  next
    case True
    obtain m e where m: "\<bar>m\<bar> < 2 ^ 53" "a = of_int m * pow2 e"
      using assms(3) unfolding representable_def by blast
    have zy: "a / pow2 E \<le> y"
      unfolding y_def using assms(2) by (intro divide_right_mono) simp_all
    have "a / pow2 E \<le> of_int (roundEven y)"
    proof (cases "E \<le> e")
      case False
      then have "a / pow2 E < 2 ^ 52"
        using small_exponent_below [OF m(1), of e E] by (simp add: m(2))
      also have "(2 ^ 52 :: rat) \<le> of_int (roundEven y)"
      proof -
        have "(2 ^ 52 :: int) \<le> roundEven y" using fl r by linarith
        then have "(of_int (2 ^ 52) :: rat) \<le> of_int (roundEven y)"
          by (simp only: of_int_le_iff)
        then show ?thesis by simp
      qed
      finally show ?thesis by simp
    next
      case le: True
      have "pow2 e = pow2 (e - E) * pow2 E"
        by (simp flip: pow2_add)
      then have "a / pow2 E = of_int m * pow2 (e - E)"
        by (simp add: m(2))
      also have "\<dots> = of_int (m * 2 ^ nat (e - E))"
        using le by (simp add: pow2_nat)
      finally have z: "a / pow2 E = of_int (m * 2 ^ nat (e - E))" .
      have "m * 2 ^ nat (e - E) \<le> \<lfloor>y\<rfloor>"
        using zy unfolding z by (simp only: le_floor_iff)
      then have "m * 2 ^ nat (e - E) \<le> roundEven y"
        using r by simp
      then show ?thesis
        unfolding z by (simp only: of_int_le_iff)
    qed
    then have "a \<le> of_int (roundEven y) * pow2 E"
      by (simp add: pos_divide_le_eq)
    then show ?thesis by (simp add: r64)
  qed
qed

lemma round64_le:
  assumes "x \<le> b" and "representable b"
  shows "round64 x \<le> b"
proof -
  consider "0 < x" | "x = 0" | "x < 0" by linarith
  then show ?thesis
  proof cases
    case 1 then show ?thesis using assms by (rule round64_le_pos)
  next
    case 2 then show ?thesis using assms(1) by simp
  next
    case 3
    have "- b \<le> round64 (- x)"
      using 3 assms by (intro round64_ge_pos representable_minus) simp_all
    then show ?thesis by (simp add: round64_minus)
  qed
qed

lemma round64_ge:
  assumes "a \<le> x" and "representable a"
  shows "a \<le> round64 x"
proof -
  have "round64 (- x) \<le> - a"
    using assms by (intro round64_le representable_minus) simp_all
  then show ?thesis by (simp add: round64_minus)
qed

section \<open>The quantiles of \<open>stat.Quantile\<close>\<close>

lemma representable_of_nat: "n \<le> 2 ^ 53 \<Longrightarrow> representable (of_nat n)"
proof -
  assume "n \<le> 2 ^ 53"
  then have "int n \<le> 2 ^ 53"
    by (metis of_nat_le_iff of_nat_numeral of_nat_power)
  then have "representable (of_int (int n))"
    by (intro representable_of_int) simp
  then show ?thesis by simp
qed

lemma float64_of_length: "n \<le> 2 ^ 53 \<Longrightarrow> float64_of_int (int n) = of_nat n"
  using round64_representable [OF representable_of_nat, of n] by (simp add: float64_of_int_def)

lemma fadd_count: "i < 2 ^ 53 \<Longrightarrow> fadd (of_nat i) 1 = of_nat (Suc i)"
proof -
  assume "i < 2 ^ 53"
  then have "Suc i \<le> 2 ^ 53" by simp
  then have "round64 (of_nat (Suc i)) = of_nat (Suc i)"
    by (intro round64_representable representable_of_nat)
  then show ?thesis by (simp add: fadd_def add.commute)
qed

lemma empiricalQuantile_loop_last:
  assumes "i < length x" and "length x \<le> 2 ^ 53"
  shows "empiricalQuantile_loop x (of_nat (length x)) (of_nat i) i = Inr (x ! (length x - 1))"
  using assms
proof (induction k \<equiv> "length x - Suc i" arbitrary: i)
  case 0
  then have i: "Suc i = length x" by simp
  have "fadd (of_nat i) 1 = of_nat (length x)"
    using 0 i fadd_count [of i] by simp
  moreover have "x ! i = x ! (length x - 1)"
    using i by (metis diff_Suc_1)
  ultimately show ?case
    using 0 i by (subst empiricalQuantile_loop.simps) simp
next
  case (Suc k)
  then have i: "Suc i < length x" "k = length x - Suc (Suc i)" by simp_all
  have c: "fadd (of_nat i) 1 = of_nat (Suc i)"
    using Suc.prems by (intro fadd_count) simp
  have "\<not> (of_nat (length x) :: rat) \<le> of_nat (Suc i)"
    using i(1) by simp
  then have "empiricalQuantile_loop x (of_nat (length x)) (of_nat i) i
      = empiricalQuantile_loop x (of_nat (length x)) (of_nat (Suc i)) (Suc i)"
    using Suc.prems by (subst empiricalQuantile_loop.simps) (simp add: c)
  also have "\<dots> = Inr (x ! (length x - 1))"
    using i Suc.prems by (intro Suc.hyps(1)) simp_all
  finally show ?case .
qed

lemma linInterpQuantile_loop_total:
  assumes "fidx \<le> of_nat (length x)" and "i < length x" and "length x \<le> 2 ^ 53"
  shows "\<exists>v. linInterpQuantile_loop x fidx (of_nat i) i = Inr v"
  using assms
proof (induction k \<equiv> "length x - Suc i" arbitrary: i)
  case 0
  then have i: "Suc i = length x" by simp
  have "fadd (of_nat i) 1 = of_nat (length x)"
    using 0 i fadd_count [of i] by simp
  then show ?case
    using 0 i by (subst linInterpQuantile_loop.simps) (auto simp: Let_def)
next
  case (Suc k)
  then have i: "Suc i < length x" "k = length x - Suc (Suc i)" by simp_all
  have c: "fadd (of_nat i) 1 = of_nat (Suc i)"
    using Suc.prems by (intro fadd_count) simp
  show ?case
  proof (cases "fidx \<le> of_nat (Suc i)")
    case True
    then show ?thesis
      using Suc.prems by (subst linInterpQuantile_loop.simps) (auto simp: Let_def c)
  next
    case False
    then have "linInterpQuantile_loop x fidx (of_nat i) i
        = linInterpQuantile_loop x fidx (of_nat (Suc i)) (Suc i)"
      using Suc.prems by (subst linInterpQuantile_loop.simps) (simp add: c)
    moreover have "\<exists>v. linInterpQuantile_loop x fidx (of_nat (Suc i)) (Suc i) = Inr v"
      using i Suc.prems by (intro Suc.hyps(1)) simp_all
    ultimately show ?thesis by simp
  qed
qed

lemma sorted_nth_bounds:
  "sorted x \<Longrightarrow> i < length x \<Longrightarrow> x ! 0 \<le> x ! i \<and> x ! i \<le> x ! (length x - 1)"
  by (simp add: sorted_nth_mono)

lemma representable_half_one: "representable (1 / 2)" "representable 1" "representable 0"
proof -
  have "\<bar>1::int\<bar> < 2 ^ 53 \<and> (1 / 2 :: rat) = of_int 1 * pow2 (- 1)"
    by (simp add: pow2_def)
  then show "representable (1 / 2)" unfolding representable_def by blast
  show "representable 1" "representable 0"
    using representable_of_int [of 1] representable_of_int [of 0] by simp_all
qed

lemma interpolate_zero:
  assumes "representable b"
  shows "fadd (fmul 0 a) (fmul (fsub 1 0) b) = b"
  using round64_representable [OF assms] round64_representable [OF representable_half_one(2)]
  by (simp add: fadd_def fmul_def fsub_def)

lemma interpolate_half:
  assumes "representable a" and "representable b" and "a \<le> b"
  shows "a \<le> fadd (fmul (1 / 2) a) (fmul (fsub 1 (1 / 2)) b)"
    and "fadd (fmul (1 / 2) a) (fmul (fsub 1 (1 / 2)) b) \<le> b"
proof -
  have h: "fsub 1 (1 / 2) = 1 / 2"
    using round64_representable [OF representable_half_one(1)] by (simp add: fsub_def)
  have a: "fmul (1 / 2) a = a / 2"
    using round64_representable [OF representable_half [OF assms(1)]] by (simp add: fmul_def)
  have b: "fmul (1 / 2) b = b / 2"
    using round64_representable [OF representable_half [OF assms(2)]] by (simp add: fmul_def)
  have v: "fadd (fmul (1 / 2) a) (fmul (fsub 1 (1 / 2)) b) = round64 (a / 2 + b / 2)"
    by (simp add: h a b fadd_def)
  have "a \<le> a / 2 + b / 2" "a / 2 + b / 2 \<le> b"
    using assms(3) by simp_all
  then show "a \<le> fadd (fmul (1 / 2) a) (fmul (fsub 1 (1 / 2)) b)"
    and "fadd (fmul (1 / 2) a) (fmul (fsub 1 (1 / 2)) b) \<le> b"
    unfolding v using assms(1,2) by (auto intro: round64_ge round64_le)
qed

lemma linInterpQuantile_loop_half_stop:
  assumes "sorted x" and "\<forall>v \<in> set x. representable v"
    and "i < length x" and "length x \<le> 2 ^ 53"
    and "i = 0 \<or> of_nat i < (of_nat (length x) / 2 :: rat)"
    and "(of_nat (length x) / 2 :: rat) \<le> of_nat (Suc i)"
  shows "\<exists>v. linInterpQuantile_loop x (of_nat (length x) / 2) (of_nat i) i = Inr v
     \<and> x ! 0 \<le> v \<and> v \<le> x ! (length x - 1)"
proof (cases "i = 0")
  case True
  have "fadd 0 1 = 1"
    using fadd_count [of 0] by simp
  then have "linInterpQuantile_loop x (of_nat (length x) / 2) (of_nat i) i = Inr (x ! 0)"
    using assms(3,6) True by (subst linInterpQuantile_loop.simps) simp
  moreover have "x ! 0 \<le> x ! (length x - 1)"
    using assms(1,3) by (intro sorted_nth_mono) simp_all
  ultimately show ?thesis
    by simp
next
  case False
  let ?n = "length x"
  let ?a = "x ! (i - 1)" and ?b = "x ! i"
  have c: "fadd (of_nat i) 1 = of_nat (Suc i)"
    using assms(3,4) by (intro fadd_count) simp
  have lt: "(of_nat i :: rat) < of_nat ?n / 2"
    using assms(5) False by simp
  have ra: "representable ?a" and rb: "representable ?b"
    using assms(2,3) by simp_all
  have ab: "?a \<le> ?b"
    using assms(1,3) by (intro sorted_nth_mono) simp_all
  have bounds: "x ! 0 \<le> ?a" "?b \<le> x ! (?n - 1)"
    using sorted_nth_bounds [OF assms(1), of "i - 1"] sorted_nth_bounds [OF assms(1), of i] assms(3)
    by simp_all
  have unfold: "linInterpQuantile_loop x (of_nat ?n / 2) (of_nat i) i
      = Inr (fadd (fmul (fsub (of_nat (Suc i)) (of_nat ?n / 2)) ?a)
                  (fmul (fsub 1 (fsub (of_nat (Suc i)) (of_nat ?n / 2))) ?b))"
    using assms(3,6) False by (subst linInterpQuantile_loop.simps) (simp add: c Let_def)
  have "(of_nat (2 * i) :: rat) < of_nat ?n" "(of_nat ?n :: rat) \<le> of_nat (2 * Suc i)"
    using lt assms(6) by simp_all
  then have "2 * i < ?n" "?n \<le> 2 * Suc i"
    by (simp_all only: of_nat_less_iff of_nat_le_iff)
  then have "?n = 2 * i + 2 \<or> ?n = 2 * i + 1"
    by arith
  then consider "?n = 2 * i + 2" | "?n = 2 * i + 1"
    by blast
  then show ?thesis
  proof cases
    case 1
    then have "(of_nat (Suc i) :: rat) - of_nat ?n / 2 = 0"
      by simp
    then have t: "fsub (of_nat (Suc i)) (of_nat ?n / 2) = 0"
      unfolding fsub_def by (simp only: round64_0)
    show ?thesis
      unfolding unfold t interpolate_zero [OF rb] using ab bounds by simp
  next
    case 2
    then have "(of_nat (Suc i) :: rat) - of_nat ?n / 2 = 1 / 2"
      by (simp add: field_simps)
    then have t: "fsub (of_nat (Suc i)) (of_nat ?n / 2) = 1 / 2"
      unfolding fsub_def using round64_representable [OF representable_half_one(1)] by (simp only:)
    show ?thesis
      unfolding unfold t using interpolate_half [OF ra rb ab] bounds by auto
  qed
qed

lemma linInterpQuantile_loop_half:
  assumes "sorted x" and "\<forall>v \<in> set x. representable v" and "length x \<le> 2 ^ 53"
    and "i < length x"
    and "i = 0 \<or> of_nat i < (of_nat (length x) / 2 :: rat)"
  shows "\<exists>v. linInterpQuantile_loop x (of_nat (length x) / 2) (of_nat i) i = Inr v
     \<and> x ! 0 \<le> v \<and> v \<le> x ! (length x - 1)"
  using assms(4,5)
proof (induction k \<equiv> "length x - Suc i" arbitrary: i)
  case 0
  then have "Suc i = length x" by simp
  then have "(of_nat (length x) / 2 :: rat) \<le> of_nat (Suc i)"
    by simp
  then show ?case
    using 0 by (intro linInterpQuantile_loop_half_stop assms(1,2,3)) simp_all
next
  case (Suc k)
  show ?case
  proof (cases "(of_nat (length x) / 2 :: rat) \<le> of_nat (Suc i)")
    case True
    then show ?thesis
      using Suc.prems by (intro linInterpQuantile_loop_half_stop assms(1,2,3)) simp_all
  next
    case False
    have c: "fadd (of_nat i) 1 = of_nat (Suc i)"
      using Suc.prems(1) assms(3) by (intro fadd_count) simp
    have i: "Suc i < length x"
      using Suc.hyps(2) by simp
    have "linInterpQuantile_loop x (of_nat (length x) / 2) (of_nat i) i
        = linInterpQuantile_loop x (of_nat (length x) / 2) (of_nat (Suc i)) (Suc i)"
      using Suc.prems False by (subst linInterpQuantile_loop.simps) (simp add: c)
    moreover have "\<exists>v. linInterpQuantile_loop x (of_nat (length x) / 2) (of_nat (Suc i)) (Suc i) = Inr v
         \<and> x ! 0 \<le> v \<and> v \<le> x ! (length x - 1)"
      using Suc.hyps(2) i False by (intro Suc.hyps(1)) simp_all
    ultimately show ?thesis by simp
  qed
qed

lemma round64_unit_interval: "0 \<le> q \<Longrightarrow> q \<le> 1 \<Longrightarrow> 0 \<le> round64 q \<and> round64 q \<le> 1"
  using round64_ge [of 0 q] round64_le [of q 1] representable_half_one by simp

lemma round64_half: "round64 (1 / 2) = 1 / 2"
  by (rule round64_representable [OF representable_half_one(1)])

lemma Quantile_Empirical_0:
  assumes "x \<noteq> []" and "sorted x"
  shows "Quantile 0 Empirical x = Inr (x ! 0)"
proof -
  have "fadd 0 1 = 1"
    using fadd_count [of 0] by simp
  then have "empiricalQuantile_loop x 0 0 0 = Inr (x ! 0)"
    using assms(1) by (subst empiricalQuantile_loop.simps) simp
  then show ?thesis
    using assms by (simp add: Quantile_def empiricalQuantile_def fmul_def)
qed

lemma Quantile_Empirical_1:
  assumes "x \<noteq> []" and "sorted x" and "length x \<le> 2 ^ 53"
  shows "Quantile 1 Empirical x = Inr (x ! (length x - 1))"
proof -
  have "fmul 1 (of_nat (length x)) = of_nat (length x)"
    using round64_representable [OF representable_of_nat [OF assms(3)]] by (simp add: fmul_def)
  moreover have "empiricalQuantile_loop x (of_nat (length x)) (of_nat 0) 0 = Inr (x ! (length x - 1))"
    using assms(1,3) by (intro empiricalQuantile_loop_last) simp_all
  ultimately show ?thesis
    using assms by (simp add: Quantile_def empiricalQuantile_def float64_of_length)
qed

lemma Quantile_LinInterp_total:
  assumes "x \<noteq> []" and "sorted x" and "length x \<le> 2 ^ 53" and "0 \<le> q" and "q \<le> 1"
  shows "\<exists>v. Quantile q LinInterp x = Inr v"
proof -
  have "q * of_nat (length x) \<le> 1 * of_nat (length x)"
    using assms(5) by (intro mult_right_mono) simp_all
  then have "q * of_nat (length x) \<le> of_nat (length x)"
    by simp
  then have "fmul q (of_nat (length x)) \<le> of_nat (length x)"
    unfolding fmul_def by (intro round64_le representable_of_nat assms(3))
  then have "\<exists>v. linInterpQuantile_loop x (fmul q (of_nat (length x))) (of_nat 0) 0 = Inr v"
    using assms(1,3) by (intro linInterpQuantile_loop_total) simp_all
  then show ?thesis
    using assms by (simp add: Quantile_def linInterpQuantile_def float64_of_length)
qed

lemma Quantile_LinInterp_half:
  assumes "x \<noteq> []" and "sorted x" and "length x \<le> 2 ^ 53" and "\<forall>v \<in> set x. representable v"
  shows "\<exists>v. Quantile (round64 (5 / 10)) LinInterp x = Inr v \<and> x ! 0 \<le> v \<and> v \<le> x ! (length x - 1)"
proof -
  have "(1 / 2 :: rat) * of_nat (length x) = of_nat (length x) / 2"
    by simp
  then have f: "fmul (1 / 2) (of_nat (length x)) = of_nat (length x) / 2"
    unfolding fmul_def
    using round64_representable [OF representable_half [OF representable_of_nat [OF assms(3)]]]
    by (simp only:)
  have "\<exists>v. linInterpQuantile_loop x (of_nat (length x) / 2) (of_nat 0) 0 = Inr v
      \<and> x ! 0 \<le> v \<and> v \<le> x ! (length x - 1)"
    using assms by (intro linInterpQuantile_loop_half) simp_all
  then show ?thesis
    using assms(1,2)
    by (simp add: Quantile_def linInterpQuantile_def float64_of_length [OF assms(3)] round64_half f)
qed

text \<open>\<open>Summarize\<close> on a pinger that has samples.\<close>

lemma Summarize_nonempty:
  assumes "durations p \<noteq> []" and "length (durations p) \<le> 2 ^ 53"
  shows "\<exists>q50 q95 q99.
      Quantile (round64 (5 / 10)) LinInterp (sort (durations p)) = Inr q50
    \<and> Quantile (round64 (95 / 100)) LinInterp (sort (durations p)) = Inr q95
    \<and> Quantile (round64 (99 / 100)) LinInterp (sort (durations p)) = Inr q99
    \<and> Summarize p = Inr (p\<lparr>durations := sort (durations p),
         out := out p @
           [Statistics \<lparr> target = url p, probes = getTotal p,
              successful = getSuccessTotal p, failed = getFailedTotal p,
              Minimum = Duration_of_float64 (sort (durations p) ! 0),
              Maximum = Duration_of_float64 (sort (durations p) ! (length (durations p) - 1)),
              Average = getAvgDuration (p\<lparr>durations := sort (durations p)\<rparr>),
              p50 = Duration_of_float64 q50, p95 = Duration_of_float64 q95,
              p99 = Duration_of_float64 q99 \<rparr>]\<rparr>)"
proof -
  let ?x = "sort (durations p)"
  have "length ?x \<noteq> 0"
    using assms(1) by simp
  then have x: "?x \<noteq> []" "sorted ?x" "length ?x \<le> 2 ^ 53"
    using assms(2) by (simp_all del: length_sort length_0_conv) simp_all
  have u: "0 \<le> round64 (5 / 10)" "round64 (5 / 10) \<le> 1"
    "0 \<le> round64 (95 / 100)" "round64 (95 / 100) \<le> 1"
    "0 \<le> round64 (99 / 100)" "round64 (99 / 100) \<le> 1"
    using round64_unit_interval [of "5 / 10"] round64_unit_interval [of "95 / 100"]
      round64_unit_interval [of "99 / 100"] by simp_all
  obtain q50 where q50: "Quantile (round64 (5 / 10)) LinInterp ?x = Inr q50"
    using Quantile_LinInterp_total [OF x u(1,2)] by blast
  obtain q95 where q95: "Quantile (round64 (95 / 100)) LinInterp ?x = Inr q95"
    using Quantile_LinInterp_total [OF x u(3,4)] by blast
  obtain q99 where q99: "Quantile (round64 (99 / 100)) LinInterp ?x = Inr q99"
    using Quantile_LinInterp_total [OF x u(5,6)] by blast
  have t: "getTotal (p\<lparr>durations := ?x\<rparr>) = getTotal p" "getTotal p \<noteq> 0"
    "getSuccessTotal (p\<lparr>durations := ?x\<rparr>) = getSuccessTotal p"
    "getFailedTotal (p\<lparr>durations := ?x\<rparr>) = getFailedTotal p"
    using assms(1) by (simp_all add: getTotal_def getSuccessTotal_def getFailedTotal_def)
  have "Summarize p = Inr (p\<lparr>durations := ?x,
         out := out p @
           [Statistics \<lparr> target = url p, probes = getTotal p,
              successful = getSuccessTotal p, failed = getFailedTotal p,
              Minimum = Duration_of_float64 (?x ! 0),
              Maximum = Duration_of_float64 (?x ! (length (durations p) - 1)),
              Average = getAvgDuration (p\<lparr>durations := ?x\<rparr>),
              p50 = Duration_of_float64 q50, p95 = Duration_of_float64 q95,
              p99 = Duration_of_float64 q99 \<rparr>]\<rparr>)"
    unfolding Summarize_def Let_def getMinDuration_def getMaxDuration_def t
    using Quantile_Empirical_0 [OF x(1,2)] Quantile_Empirical_1 [OF x] q50 q95 q99 t(2)
    by simp
  then show ?thesis
    using q50 q95 q99 by blast
qed

section \<open>The summary\<close>

lemma logStats_fields:
  "durations (logStats p s) = durations p @ [sample s]"
  "out (logStats p s) = out p"
  "url (logStats p s) = url p"
  by (simp_all add: logStats_def sample_def Let_def split: option.splits)

lemma foldl_logStats_fields:
  "durations (foldl logStats p ss) = durations p @ map sample ss"
  "out (foldl logStats p ss) = out p"
  "url (foldl logStats p ss) = url p"
  by (induction ss arbitrary: p) (simp_all add: logStats_fields)

lemma toward_zero_of_int [simp]: "toward_zero (of_int k) = k"
  by (simp add: toward_zero_def)

lemma toward_zero_signed [simp]: "toward_zero (signed d) = sint d"
  using toward_zero_of_int [of "sint d"] by simp

lemma toward_zero_mono: "a \<le> b \<Longrightarrow> toward_zero a \<le> toward_zero b"
proof -
  assume ab: "a \<le> b"
  consider "0 \<le> a" | "a < 0" "b < 0" | "a < 0" "0 \<le> b" by linarith
  then show ?thesis
  proof cases
    case 1
    then show ?thesis using ab by (simp add: toward_zero_def floor_mono)
  next
    case 2
    then show ?thesis using ab by (simp add: toward_zero_def ceiling_mono)
  next
    case 3
    have "\<lceil>a\<rceil> \<le> 0" using 3(1) by (simp add: ceiling_le_iff)
    moreover have "0 \<le> \<lfloor>b\<rfloor>" using 3(2) by simp
    ultimately have "\<lceil>a\<rceil> \<le> \<lfloor>b\<rfloor>" by linarith
    then show ?thesis using 3 by (simp add: toward_zero_def)
  qed
qed

lemma sint_word_of_int_64:
  "- (2 ^ 63) \<le> k \<Longrightarrow> k < 2 ^ 63 \<Longrightarrow> sint (word_of_int k :: 64 word) = k"
  by (simp add: sint_sbintrunc' signed_take_bit_int_eq_self)

lemma sint_64_range: "- (2 ^ 63) \<le> sint (d :: 64 word)" "sint (d :: 64 word) < 2 ^ 63"
  using sint_ge [of d] sint_lt [of d] by simp_all

lemma Duration_of_float64_sint: "Duration_of_float64 (of_int (sint d)) = d"
  using sint_64_range [of d] by (simp add: Duration_of_float64_def)

lemma sint_Duration_of_float64_between:
  fixes lo hi :: "64 word"
  assumes "of_int (sint lo) \<le> v" and "v \<le> of_int (sint hi)"
  shows "sint lo \<le> sint (Duration_of_float64 v)" and "sint (Duration_of_float64 v) \<le> sint hi"
proof -
  have t: "sint lo \<le> toward_zero v" "toward_zero v \<le> sint hi"
    using toward_zero_mono [OF assms(1)] toward_zero_mono [OF assms(2)] by simp_all
  then have r: "- (2 ^ 63) \<le> toward_zero v" "toward_zero v < 2 ^ 63"
    using sint_64_range(1) [of lo] sint_64_range(2) [of hi] by linarith+
  then have "sint (Duration_of_float64 v) = toward_zero v"
    by (simp add: Duration_of_float64_def sint_word_of_int_64)
  then show "sint lo \<le> sint (Duration_of_float64 v)" and "sint (Duration_of_float64 v) \<le> sint hi"
    using t by simp_all
qed

lemma sample_exact:
  assumes "\<bar>sint (Duration s)\<bar> \<le> 2 ^ 53"
  shows "sample s = of_int (sint (Duration s))" and "representable (sample s)"
proof -
  have r: "representable (of_int (sint (Duration s)))"
    using assms by (rule representable_of_int)
  then show "sample s = of_int (sint (Duration s))"
    by (simp add: sample_def float64_of_int_def Nanoseconds_def round64_representable)
  then show "representable (sample s)"
    using r by simp
qed



lemma two_equal_samples:
  assumes "\<bar>sint d\<bar> \<le> 2 ^ 53"
    and "Quantile (round64 (5 / 10)) LinInterp [of_int (sint d), of_int (sint d)] = Inr v50"
    and "Quantile (round64 (95 / 100)) LinInterp [of_int (sint d), of_int (sint d)] = Inr v95"
    and "Quantile (round64 (99 / 100)) LinInterp [of_int (sint d), of_int (sint d)] = Inr v99"
  shows "report (Summarize (foldl logStats (NewPinger out' url' interval' counter')
              [probe d None, probe d None]))
       = Some \<lparr> target = url', probes = 2, successful = 2, failed = 0,
                  Minimum = d, Maximum = d,
                  Average = Duration_of_float64 (Mean [of_int (sint d), of_int (sint d)]),
                  p50 = Duration_of_float64 v50, p95 = Duration_of_float64 v95,
                  p99 = Duration_of_float64 v99 \<rparr>"
proof -
  define P where "P = foldl logStats (NewPinger out' url' interval' counter') [probe d None, probe d None]"
  have s: "sample (probe d None) = of_int (sint d)"
    using sample_exact(1) [of "probe d None"] assms(1) by (simp add: probe_def)
  have d: "durations P = [of_int (sint d), of_int (sint d)]"
    unfolding P_def by (simp only: foldl_logStats_fields) (simp add: NewPinger_def s)
  have srt: "sort (durations P) = [of_int (sint d), of_int (sint d)]"
    unfolding d by simp
  have "durations P \<noteq> []" "length (durations P) \<le> 2 ^ 53"
    unfolding d by simp_all
  from Summarize_nonempty [OF this] obtain q50 q95 q99 where
    q: "Quantile (round64 (5 / 10)) LinInterp (sort (durations P)) = Inr q50"
      "Quantile (round64 (95 / 100)) LinInterp (sort (durations P)) = Inr q95"
      "Quantile (round64 (99 / 100)) LinInterp (sort (durations P)) = Inr q99"
    and S: "Summarize P = Inr (P\<lparr>durations := sort (durations P),
         out := out P @
           [Statistics \<lparr> target = url P, probes = getTotal P,
              successful = getSuccessTotal P, failed = getFailedTotal P,
              Minimum = Duration_of_float64 (sort (durations P) ! 0),
              Maximum = Duration_of_float64 (sort (durations P) ! (length (durations P) - 1)),
              Average = getAvgDuration (P\<lparr>durations := sort (durations P)\<rparr>),
              p50 = Duration_of_float64 q50, p95 = Duration_of_float64 q95,
              p99 = Duration_of_float64 q99 \<rparr>]\<rparr>)"
    by blast
  have v: "q50 = v50" "q95 = v95" "q99 = v99"
    using q assms(2,3,4) unfolding srt by simp_all
  have m1: "Duration_of_float64 (sort (durations P) ! 0) = d"
    by (simp only: srt) (simp add: Duration_of_float64_sint del: of_int_sint)
  have m2: "Duration_of_float64 (sort (durations P) ! (length (durations P) - 1)) = d"
    by (simp only: srt d) (simp add: Duration_of_float64_sint del: of_int_sint)
  have f: "failedTotal P = 0" "url P = url'"
    unfolding P_def by (simp_all add: logStats_def probe_def NewPinger_def Let_def)
  have c: "getTotal P = 2" "getSuccessTotal P = 2" "getFailedTotal P = 0"
    by (simp_all add: getTotal_def getSuccessTotal_def getFailedTotal_def d f)
  have a: "getAvgDuration (P\<lparr>durations := sort (durations P)\<rparr>)
      = Duration_of_float64 (Mean [of_int (sint d), of_int (sint d)])"
    by (simp only: getAvgDuration_def srt) simp
  show ?thesis
    unfolding P_def [symmetric] S report_def m1 m2 v c a f by simp
qed

lemma quantiles_of_4691634384303271:
  "Quantile (round64 (5 / 10)) LinInterp [4691634384303271, 4691634384303271] = Inr 4691634384303271"
  "Quantile (round64 (95 / 100)) LinInterp [4691634384303271, 4691634384303271] = Inr 4691634384303271"
  "Quantile (round64 (99 / 100)) LinInterp [4691634384303271, 4691634384303271] = Inr 4691634384303270"
  by code_simp+

lemma quantiles_of_8536425214407617:
  "Quantile (round64 (5 / 10)) LinInterp [8536425214407617, 8536425214407617] = Inr 8536425214407617"
  "Quantile (round64 (95 / 100)) LinInterp [8536425214407617, 8536425214407617] = Inr 8536425214407618"
  "Quantile (round64 (99 / 100)) LinInterp [8536425214407617, 8536425214407617] = Inr 8536425214407618"
  by code_simp+

lemma quantiles_of_6755636922649759:
  "Quantile (round64 (5 / 10)) LinInterp [6755636922649759, 6755636922649759] = Inr 6755636922649759"
  "Quantile (round64 (95 / 100)) LinInterp [6755636922649759, 6755636922649759] = Inr 6755636922649758"
  "Quantile (round64 (99 / 100)) LinInterp [6755636922649759, 6755636922649759] = Inr 6755636922649759"
  by code_simp+

lemma Duration_of_float64_numeral:
  "numeral n < (2 ^ 63 :: int) \<Longrightarrow> Duration_of_float64 (numeral n) = numeral n"
proof -
  assume "numeral n < (2 ^ 63 :: int)"
  moreover have "toward_zero (numeral n) = numeral n"
    using toward_zero_of_int [of "numeral n"] by simp
  moreover have "- (2 ^ 63) \<le> (numeral n :: int)"
    by (rule order_trans [of _ 0]) simp_all
  ultimately show ?thesis
    by (simp add: Duration_of_float64_def)
qed


section \<open>The scheduling loop\<close>

lemma observe_fields:
  "durations (observe p s) = durations p @ [sample s]"
  "out (observe p s) = out p @ [PingResult s]"
  "counter (observe p s) = counter p"
  "stopOnce (observe p s) = stopOnce p"
  "stopC (observe p s) = stopC p"
  "url (observe p s) = url p"
  by (simp_all add: observe_def printPingResult_def logStats_def sample_def Let_def split: option.splits)

lemma foldl_observe_fields:
  "durations (foldl observe p ss) = durations p @ map sample ss"
  "out (foldl observe p ss) = out p @ map PingResult ss"
  "counter (foldl observe p ss) = counter p"
  "stopOnce (foldl observe p ss) = stopOnce p"
  "stopC (foldl observe p ss) = stopC p"
  "url (foldl observe p ss) = url p"
  by (induction ss arbitrary: p) (simp_all add: observe_fields)

lemma counter_logStats: "counter (logStats p stats) = counter p"
  by (simp add: logStats_def Let_def split: option.splits)

lemma tick_discard:
  "\<not> hasDiscardedFirst l \<Longrightarrow>
   tick l s = l\<lparr>hasDiscardedFirst := True, pinger := printPingResult (pinger l) s\<rparr>"
  by (simp add: tick_def Let_def)

lemma tick_counted:
  "hasDiscardedFirst l \<Longrightarrow>
   tick l s =
     (if counter (pinger l) > 0 \<and> getTotal (pinger l) + 1 > counter (pinger l) - 1
      then l\<lparr>pinger := observe (pinger l) s, stop := True\<rparr>
      else l\<lparr>pinger := observe (pinger l) s\<rparr>)"
  by (simp add: tick_def Let_def observe_def getTotal_logStats counter_logStats)

lemma Ping_loop_stopped: "stop l \<Longrightarrow> Ping_loop l es = Inr l"
  by (cases es) simp_all

lemma Ping_loop_running:
  assumes "hasDiscardedFirst l" and "\<not> stop l"
    and "counter (pinger l) \<le> 0 \<or> getTotal (pinger l) + int (length ss) < counter (pinger l)"
  shows "Ping_loop l (map Tick ss) = Inr (l\<lparr>pinger := foldl observe (pinger l) ss\<rparr>)"
  using assms
proof (induction ss arbitrary: l)
  case Nil
  then show ?case by simp
next
  case (Cons s ss)
  let ?l = "l\<lparr>pinger := observe (pinger l) s\<rparr>"
  have t: "tick l s = ?l"
    using Cons.prems by (auto simp: tick_counted)
  have "getTotal (pinger ?l) = getTotal (pinger l) + 1"
    by (simp add: getTotal_def observe_fields)
  then have "Ping_loop ?l (map Tick ss) = Inr (?l\<lparr>pinger := foldl observe (pinger ?l) ss\<rparr>)"
    using Cons.prems by (intro Cons.IH) (auto simp: observe_fields)
  then show ?case
    using Cons.prems(2) t by simp
qed

lemma Ping_loop_limit:
  assumes "hasDiscardedFirst l" and "\<not> stop l"
    and "0 < counter (pinger l)" and "getTotal (pinger l) < counter (pinger l)"
    and "counter (pinger l) - getTotal (pinger l) \<le> int (length ss)"
  shows "Ping_loop l (map Tick ss) =
     Inr (l\<lparr>pinger := foldl observe (pinger l) (take (nat (counter (pinger l) - getTotal (pinger l))) ss),
            stop := True\<rparr>)"
  using assms
proof (induction ss arbitrary: l)
  case Nil
  then show ?case by simp
next
  case (Cons s ss)
  let ?c = "counter (pinger l)" and ?k = "getTotal (pinger l)"
  let ?l = "l\<lparr>pinger := observe (pinger l) s\<rparr>"
  have k': "getTotal (pinger ?l) = ?k + 1"
    by (simp add: getTotal_def observe_fields)
  have "nat (?c - ?k) = Suc (nat (?c - (?k + 1)))"
    using Cons.prems(4) by arith
  then have tk: "take (nat (?c - ?k)) (s # ss) = s # take (nat (?c - (?k + 1))) ss"
    by simp
  show ?case
  proof (cases "?k + 1 = ?c")
    case True
    then have "tick l s = ?l\<lparr>stop := True\<rparr>"
      using Cons.prems by (auto simp: tick_counted)
    moreover have "take (nat (?c - ?k)) (s # ss) = [s]"
      using True by (simp add: tk)
    ultimately show ?thesis
      using Cons.prems(2) by (simp add: Ping_loop_stopped)
  next
    case False
    then have lt: "?k + 1 < ?c"
      using Cons.prems(4) by simp
    then have t: "tick l s = ?l"
      using Cons.prems by (auto simp: tick_counted)
    have "Ping_loop ?l (map Tick ss) =
       Inr (?l\<lparr>pinger := foldl observe (pinger ?l) (take (nat (counter (pinger ?l) - getTotal (pinger ?l))) ss),
              stop := True\<rparr>)"
      using Cons.prems lt k' by (intro Cons.IH) (auto simp: observe_fields)
    then show ?thesis
      using Cons.prems(2) t k' tk by (simp add: observe_fields)
  qed
qed

lemma NewPinger_fields:
  "durations (NewPinger out' url' interval' counter') = []"
  "out (NewPinger out' url' interval' counter') = out'"
  "counter (NewPinger out' url' interval' counter') = counter'"
  "failedTotal (NewPinger out' url' interval' counter') = 0"
  "stopOnce (NewPinger out' url' interval' counter') = False"
  "stopC (NewPinger out' url' interval' counter') = False"
  by (simp_all add: NewPinger_def)


lemma Ping_loop_first:
  "Ping_loop (start p) (map Tick (s # ss)) =
     Ping_loop \<lparr>pinger = printPingResult p s, stop = False, hasDiscardedFirst = True\<rparr> (map Tick ss)"
  by (simp add: start_def tick_discard)

text \<open>
  The first probe of a run.  When the loop runs \<open>N \<ge> 1\<close> probes and nothing stops it
  before the last of them (the counter is not positive, or \<open>N - 1\<close> does not exceed
  it), every one of the \<open>N\<close> results is printed, in order, the stored samples are those
  of the results after the first, and the total is \<open>N - 1\<close>.  With \<open>N \<ge> 2\<close> (and no
  more than \<open>2^53\<close> samples) \<open>Summarize\<close> then returns and reports \<open>N - 1\<close>
  probes.
\<close>

lemma Ping_loop_first_probe_not_stored:
  assumes "ss \<noteq> []"
    and "counter' \<le> 0 \<or> int (length ss) \<le> counter' + 1"
  shows "\<exists>l. Ping_loop (start (NewPinger out' url' interval' counter')) (map Tick ss) = Inr l
     \<and> out (pinger l) = out' @ map PingResult ss
     \<and> durations (pinger l) = map sample (tl ss)
     \<and> getTotal (pinger l) = int (length ss) - 1
     \<and> (2 \<le> length ss \<and> length ss \<le> 2 ^ 53 \<longrightarrow>
          (\<exists>p' sm. Summarize (pinger l) = Inr p'
             \<and> out p' = out' @ map PingResult ss @ [Statistics sm]
             \<and> probes sm = int (length ss) - 1))"
proof -
  obtain s rest where ss: "ss = s # rest"
    using assms(1) by (cases ss) auto
  let ?q = "printPingResult (NewPinger out' url' interval' counter') s"
  let ?l = "\<lparr>pinger = ?q, stop = False, hasDiscardedFirst = True\<rparr>"
  have p: "durations ?q = []" "out ?q = out' @ [PingResult s]" "counter ?q = counter'"
    by (simp_all add: printPingResult_def NewPinger_def)
  have first: "Ping_loop (start (NewPinger out' url' interval' counter')) (map Tick ss)
      = Ping_loop ?l (map Tick rest)"
    unfolding ss by (rule Ping_loop_first)
  have tl: "tl ss = rest" "map PingResult ss = PingResult s # map PingResult rest"
    "int (length ss) - 1 = int (length rest)"
    by (simp_all add: ss)
  have "\<exists>stopped. Ping_loop ?l (map Tick rest)
      = Inr (?l\<lparr>pinger := foldl observe ?q rest, stop := stopped\<rparr>)"
  proof (cases "counter' \<le> 0 \<or> int (length rest) < counter'")
    case True
    then have "Ping_loop ?l (map Tick rest) = Inr (?l\<lparr>pinger := foldl observe (pinger ?l) rest\<rparr>)"
      by (intro Ping_loop_running) (auto simp: p getTotal_def)
    then have "Ping_loop ?l (map Tick rest)
        = Inr (?l\<lparr>pinger := foldl observe ?q rest, stop := False\<rparr>)"
      by simp
    then show ?thesis by blast
  next
    case False
    then have c: "0 < counter'" "int (length rest) = counter'"
      using assms(2) by (auto simp: ss)
    then have "Ping_loop ?l (map Tick rest) =
       Inr (?l\<lparr>pinger := foldl observe (pinger ?l)
                 (take (nat (counter (pinger ?l) - getTotal (pinger ?l))) rest), stop := True\<rparr>)"
      by (intro Ping_loop_limit) (auto simp: p getTotal_def)
    moreover have "take (nat (counter (pinger ?l) - getTotal (pinger ?l))) rest = rest"
      using c by (simp add: p getTotal_def)
    ultimately have "Ping_loop ?l (map Tick rest)
        = Inr (?l\<lparr>pinger := foldl observe ?q rest, stop := True\<rparr>)"
      by simp
    then show ?thesis by blast
  qed
  then obtain stopped where run:
    "Ping_loop (start (NewPinger out' url' interval' counter')) (map Tick ss)
      = Inr (?l\<lparr>pinger := foldl observe ?q rest, stop := stopped\<rparr>)"
    unfolding first by blast
  let ?final = "foldl observe ?q rest"
  have f: "out ?final = out' @ map PingResult ss" "durations ?final = map sample (tl ss)"
    "getTotal ?final = int (length ss) - 1"
    unfolding tl by (simp_all add: foldl_observe_fields p getTotal_def)
  have "\<exists>p' sm. Summarize ?final = Inr p'
      \<and> out p' = out' @ map PingResult ss @ [Statistics sm]
      \<and> probes sm = int (length ss) - 1"
    if n: "2 \<le> length ss \<and> length ss \<le> 2 ^ 53"
  proof -
    have "rest \<noteq> []"
      using n by (auto simp: ss)
    then have "durations ?final \<noteq> []" "length (durations ?final) \<le> 2 ^ 53"
      using n by (simp_all add: f(2) tl(1) ss)
    from Summarize_nonempty [OF this] obtain p' sm where
      "Summarize ?final = Inr p'" "out p' = out ?final @ [Statistics sm]"
      "probes sm = getTotal ?final"
      by fastforce
    then show ?thesis
      using f by auto
  qed
  then show ?thesis
    using run f by simp
qed

text \<open>
  Claim C4 asks that a run of \<open>N \<ge> 1\<close> probes ends in a summary whose total is
  \<open>N - 1\<close>.  The loop does its part, for every \<open>N\<close>: the first result is printed and
  not stored.  The summary is what fails, at \<open>N = 1\<close>: after the only probe the sample
  set is empty, the total is \<open>0\<close>, and \<open>Summarize\<close> panics in \<open>getMinDuration\<close>
  instead of reporting that total, as it does on every pinger without samples (claim C2).
  This is so for every probe result and every configuration of the pinger, and for the
  run of an unbounded pinger that is stopped from outside after its first probe.
\<close>

theorem single_probe_run_has_no_summary:
  "(\<exists>l. Ping_loop (start (NewPinger out' url' interval' counter')) (map Tick [s]) = Inr l
        \<and> out (pinger l) = out' @ [PingResult s]
        \<and> durations (pinger l) = []
        \<and> getTotal (pinger l) = 0
        \<and> Summarize (pinger l) = Inl (Panic ''stat: zero length slice''))
   \<and> map_sum id (map_option out)
        (Ping (NewPinger [] ''http://example.com'' 0 0)
           [Tick (probe 10000000 None), ExternalStop, Done])
       = Inr (Some [PingResult (probe 10000000 None)])
   \<and> map_sum id (map_option getTotal)
        (Ping (NewPinger [] ''http://example.com'' 0 0)
           [Tick (probe 10000000 None), ExternalStop, Done])
       = Inr (Some 0)
   \<and> map_sum id (map_option Summarize)
        (Ping (NewPinger [] ''http://example.com'' 0 0)
           [Tick (probe 10000000 None), ExternalStop, Done])
       = Inr (Some (Inl (Panic ''stat: zero length slice'')))"
  by (simp add: Ping_def start_def tick_def printPingResult_def Stop_def close_def
      NewPinger_def getTotal_def Summarize_def getMinDuration_def Quantile_def Let_def)

lemma Ping_loop_append:
  "Ping_loop l (es1 @ es2) =
     (case Ping_loop l es1 of Inl err \<Rightarrow> Inl err | Inr l' \<Rightarrow> Ping_loop l' es2)"
proof (induction es1 arbitrary: l)
  case Nil
  then show ?case by simp
next
  case (Cons e es1)
  show ?case
  proof (cases "stop l")
    case True
    then show ?thesis by (simp add: Ping_loop_stopped)
  next
    case False
    then show ?thesis
      by (cases e) (simp_all add: Cons.IH split: sum.splits)
  qed
qed

lemma tick_unbounded:
  "counter (pinger l) \<le> 0 \<Longrightarrow> \<not> stop l \<Longrightarrow>
   \<not> stop (tick l s) \<and> counter (pinger (tick l s)) = counter (pinger l)
   \<and> stopC (pinger (tick l s)) = stopC (pinger l)"
  by (cases "hasDiscardedFirst l")
     (simp_all add: tick_discard tick_counted observe_fields printPingResult_def)

lemma Ping_loop_unbounded:
  assumes "counter (pinger l) \<le> 0" and "\<not> stop l" and "\<not> stopC (pinger l)"
    and "ExternalStop \<notin> set es"
  shows "\<exists>l'. Ping_loop l es = Inr l' \<and> \<not> stop l'"
  using assms
proof (induction es arbitrary: l)
  case Nil
  then show ?case by simp
next
  case (Cons e es)
  show ?case
  proof (cases e)
    case (Tick s)
    have "\<exists>l'. Ping_loop (tick l s) es = Inr l' \<and> \<not> stop l'"
      using Cons.prems tick_unbounded [of l s] by (intro Cons.IH) auto
    then show ?thesis
      using Cons.prems(2) Tick by simp
  next
    case ExternalStop
    then show ?thesis using Cons.prems(4) by simp
  next
    case Done
    have "\<exists>l'. Ping_loop l es = Inr l' \<and> \<not> stop l'"
      using Cons.prems by (intro Cons.IH) auto
    then show ?thesis
      using Cons.prems(2,3) Done by simp
  qed
qed

text \<open>
  Claim C5.  With a counter \<open>c > 0\<close> and no stop from outside, the loop is still
  running after any \<open>c\<close> or fewer probes, and it has ended once more than \<open>c\<close> ticks
  have fired: it then has run \<open>c + 1\<close> probes, printed them, and stored the \<open>c\<close>
  samples after the first.  With \<open>c \<le> 0\<close> the loop never ends on a run in which
  nobody calls \<open>Stop\<close>, and it ends when \<open>Stop\<close> is called and the \<open>select\<close> sees
  the closed channel.
\<close>

theorem counter_limit_ends_the_loop:
  "(0 < c \<and> int (length ss) \<le> c \<longrightarrow>
      Ping (NewPinger out' url' interval' c) (map Tick ss) = Inr None)
   \<and> (0 < c \<and> c < int (length ss) \<longrightarrow>
      (\<exists>p. Ping (NewPinger out' url' interval' c) (map Tick ss) = Inr (Some p)
         \<and> getTotal p = c
         \<and> durations p = map sample (take (nat c) (tl ss))
         \<and> out p = out' @ map PingResult (take (nat c + 1) ss)))
   \<and> (c \<le> 0 \<and> ExternalStop \<notin> set es \<longrightarrow>
      Ping (NewPinger out' url' interval' c) es = Inr None)
   \<and> (c \<le> 0 \<longrightarrow>
      (\<exists>p. Ping (NewPinger out' url' interval' c) (map Tick ss @ [ExternalStop, Done]) = Inr (Some p)
         \<and> out p = out' @ map PingResult ss))"
proof (intro conjI impI)
  let ?fresh = "NewPinger out' url' interval' c"
  show "Ping ?fresh (map Tick ss) = Inr None" if h: "0 < c \<and> int (length ss) \<le> c"
  proof (cases ss)
    case Nil
    then show ?thesis by (simp add: Ping_def start_def)
  next
    case (Cons s rest)
    let ?l = "\<lparr>pinger = printPingResult ?fresh s, stop = False, hasDiscardedFirst = True\<rparr>"
    have "Ping_loop ?l (map Tick rest) = Inr (?l\<lparr>pinger := foldl observe (pinger ?l) rest\<rparr>)"
      using h Cons by (intro Ping_loop_running) (auto simp: printPingResult_def NewPinger_def getTotal_def)
    then have "Ping_loop (start ?fresh) (map Tick ss) = Inr (?l\<lparr>pinger := foldl observe (pinger ?l) rest\<rparr>)"
      unfolding Cons Ping_loop_first by simp
    then show ?thesis
      by (simp add: Ping_def)
  qed
  show "\<exists>p. Ping ?fresh (map Tick ss) = Inr (Some p) \<and> getTotal p = c
         \<and> durations p = map sample (take (nat c) (tl ss))
         \<and> out p = out' @ map PingResult (take (nat c + 1) ss)"
    if h: "0 < c \<and> c < int (length ss)"
  proof -
    obtain s rest where ss: "ss = s # rest"
      using h by (cases ss) auto
    let ?q = "printPingResult ?fresh s"
    let ?l = "\<lparr>pinger = ?q, stop = False, hasDiscardedFirst = True\<rparr>"
    have p: "durations ?q = []" "out ?q = out' @ [PingResult s]" "counter ?q = c"
      "stopOnce ?q = False" "stopC ?q = False"
      by (simp_all add: printPingResult_def NewPinger_def)
    have first: "Ping_loop (start ?fresh) (map Tick ss) = Ping_loop ?l (map Tick rest)"
      unfolding ss by (rule Ping_loop_first)
    have "Ping_loop ?l (map Tick rest) =
       Inr (?l\<lparr>pinger := foldl observe (pinger ?l)
                 (take (nat (counter (pinger ?l) - getTotal (pinger ?l))) rest), stop := True\<rparr>)"
      using h ss by (intro Ping_loop_limit) (auto simp: p getTotal_def)
    then have run: "Ping_loop (start ?fresh) (map Tick ss) =
       Inr (?l\<lparr>pinger := foldl observe ?q (take (nat c) rest), stop := True\<rparr>)"
      unfolding first by (simp add: p getTotal_def)
    have "nat c \<le> length rest"
      using h ss by auto
    then have len: "length (take (nat c) rest) = nat c"
      by simp
    have "Ping ?fresh (map Tick ss) =
       Inr (Some ((foldl observe ?q (take (nat c) rest))\<lparr>stopOnce := True, stopC := True\<rparr>))"
      by (simp add: Ping_def run Stop_def close_def foldl_observe_fields p)
    moreover have "take (nat c + 1) ss = s # take (nat c) rest" "tl ss = rest"
      by (simp_all add: ss)
    ultimately show ?thesis
      using h len by (simp add: getTotal_def foldl_observe_fields p)
  qed
  show "Ping ?fresh es = Inr None" if h: "c \<le> 0 \<and> ExternalStop \<notin> set es"
  proof -
    have "\<exists>l'. Ping_loop (start ?fresh) es = Inr l' \<and> \<not> stop l'"
      using h by (intro Ping_loop_unbounded) (simp_all add: start_def NewPinger_def)
    then show ?thesis
      by (auto simp: Ping_def)
  qed
  show "\<exists>p. Ping ?fresh (map Tick ss @ [ExternalStop, Done]) = Inr (Some p)
         \<and> out p = out' @ map PingResult ss" if h: "c \<le> 0"
  proof -
    have "\<exists>l. Ping_loop (start ?fresh) (map Tick ss) = Inr l \<and> \<not> stop l
        \<and> \<not> stopOnce (pinger l) \<and> \<not> stopC (pinger l) \<and> out (pinger l) = out' @ map PingResult ss"
    proof (cases ss)
      case Nil
      then show ?thesis by (simp add: start_def NewPinger_def)
    next
      case (Cons s rest)
      let ?l = "\<lparr>pinger = printPingResult ?fresh s, stop = False, hasDiscardedFirst = True\<rparr>"
      have "Ping_loop ?l (map Tick rest) = Inr (?l\<lparr>pinger := foldl observe (pinger ?l) rest\<rparr>)"
        using h by (intro Ping_loop_running) (auto simp: printPingResult_def NewPinger_def)
      then have "Ping_loop (start ?fresh) (map Tick ss) = Inr (?l\<lparr>pinger := foldl observe (pinger ?l) rest\<rparr>)"
        unfolding Cons Ping_loop_first by simp
      then show ?thesis
        by (simp add: foldl_observe_fields printPingResult_def NewPinger_def Cons)
    qed
    then obtain l where l: "Ping_loop (start ?fresh) (map Tick ss) = Inr l" "\<not> stop l"
      "\<not> stopOnce (pinger l)" "\<not> stopC (pinger l)" "out (pinger l) = out' @ map PingResult ss"
      by blast
    have "Ping_loop (start ?fresh) (map Tick ss @ [ExternalStop, Done]) =
        Inr (l\<lparr>pinger := (pinger l)\<lparr>stopOnce := True, stopC := True\<rparr>, stop := True\<rparr>)"
      using l by (simp add: Ping_loop_append Stop_def close_def)
    then show ?thesis
      using l by (simp add: Ping_def Stop_def)
  qed
qed

theorem counter_limit_ends_the_loop_witness:
  "Ping (NewPinger [] ''http://example.com'' 0 3) (map Tick (replicate 3 (probe 10000000 None)))
     = Inr None
   \<and> (\<exists>p. Ping (NewPinger [] ''http://example.com'' 0 3)
              (map Tick (replicate 6 (probe 10000000 None))) = Inr (Some p)
          \<and> getTotal p = 3
          \<and> durations p = map sample (replicate 3 (probe 10000000 None))
          \<and> out p = map PingResult (replicate 4 (probe 10000000 None)))
   \<and> Ping (NewPinger [] ''http://example.com'' 0 0)
        [Tick (probe 10000000 None), Done, Tick (probe 10000000 None)] = Inr None
   \<and> (\<exists>p. Ping (NewPinger [] ''http://example.com'' 0 0)
              [Tick (probe 10000000 None), Tick (probe 10000000 None), ExternalStop, Done]
            = Inr (Some p)
          \<and> out p = map PingResult (replicate 2 (probe 10000000 None)))"
proof -
  have r: "replicate 3 (probe 10000000 None)
      = [probe 10000000 None, probe 10000000 None, probe 10000000 None]"
    "replicate 4 (probe 10000000 None)
      = [probe 10000000 None, probe 10000000 None, probe 10000000 None, probe 10000000 None]"
    "replicate 6 (probe 10000000 None)
      = [probe 10000000 None, probe 10000000 None, probe 10000000 None,
         probe 10000000 None, probe 10000000 None, probe 10000000 None]"
    "replicate 2 (probe 10000000 None) = [probe 10000000 None, probe 10000000 None]"
    by (simp_all add: numeral_eq_Suc)
  show ?thesis
    using
      counter_limit_ends_the_loop
        [where c = 3 and ss = "replicate 3 (probe 10000000 None)" and out' = "[]"
           and url' = "''http://example.com''" and interval' = 0 and es = "[]"]
      counter_limit_ends_the_loop
        [where c = 3 and ss = "replicate 6 (probe 10000000 None)" and out' = "[]"
           and url' = "''http://example.com''" and interval' = 0 and es = "[]"]
      counter_limit_ends_the_loop
        [where c = 0 and ss = "replicate 2 (probe 10000000 None)" and out' = "[]"
           and url' = "''http://example.com''" and interval' = 0
           and es = "[Tick (probe 10000000 None), Done, Tick (probe 10000000 None)]"]
    unfolding r by simp
qed

section \<open>The average of a \<open>Result\<close>\<close>

text \<open>
  Claim C10.  \<open>Result.Avg\<close> never panics: it returns zero when \<open>SuccessCounter\<close> is
  zero, and otherwise the quotient of \<open>TotalDuration\<close> by \<open>SuccessCounter\<close>, rounded to
  zero, as an \<open>int64\<close>.
\<close>

theorem Avg_never_divides_by_zero:
  "Avg result =
     Inr (if SuccessCounter result = 0 then 0
          else word_of_int (sint (TotalDuration result) sdiv sint (SuccessCounter result)))"
  by (simp add: Avg_def int64_div_def)

end
